theory Spec2Isabelle
  imports Main
begin

section \<open>The lexer of src/main.c as HOL functions\<close>

text \<open>
  The development embeds the token list (\<open>create_token_list\<close>, \<open>add_token\<close>) and the
  scanner (\<open>lex\<close>) of \<^verbatim>\<open>src/main.c\<close>.

  What the C standard leaves to the platform is fixed as follows and is visible in the
  definitions below:
  \<^item> \<^verbatim>\<open>char\<close> is a signed 8-bit type (the x86 ABIs); \<open>char_to_int\<close> is the integer
    promotion of a \<^verbatim>\<open>char\<close>, \<open>int_to_char\<close> the conversion performed by the
    assignment \<^verbatim>\<open>c = fgetc(file)\<close>;
  \<^item> the \<^verbatim>\<open><ctype.h>\<close> predicates are those of the "C" locale (the program never
    calls \<^verbatim>\<open>setlocale\<close>) and are false on every negative argument;
  \<^item> \<^verbatim>\<open>size_t\<close> has 64 bits and a \<open>Token\<close> takes 16 bytes, a \<open>TokenList\<close> 24 (the LP64
    ABIs): sizes are natural numbers, and every product, doubling and increment the
    source computes in \<^verbatim>\<open>size_t\<close> is reduced modulo \<open>2 ^ 64\<close>;
  \<^item> the allocator is a parameter: \<open>malloc_ok n\<close> and \<open>realloc_ok n\<close> tell whether
    \<^verbatim>\<open>malloc\<close> and \<^verbatim>\<open>realloc\<close> return a block for a request of \<open>n\<close> bytes.
    \<^verbatim>\<open>strdup\<close>, whose result the program never tests, returns a copy: a \<^verbatim>\<open>NULL\<close>
    from it would change the text of one token and no branch of the program;
  \<^item> \<open>lex\<close> is the scanner for a \<^verbatim>\<open>malloc\<close> that returns the two blocks of its token
    list, of 24 and 160 bytes; \<open>lex_log\<close> is the scanner for any \<open>malloc_ok\<close>, and it
    returns, next to the result, the calls it made to the allocator, in order.
  A write outside an array and \<^verbatim>\<open>exit(EXIT_FAILURE)\<close> are results of type \<open>fault\<close>.
  \<^verbatim>\<open>buffer_index\<close>, an \<^verbatim>\<open>int\<close> that only counts up from 0 and whose store faults from
  256 on, is a natural number. The pointer that \<open>add_token\<close> returns, which \<open>lex\<close>
  ignores, and \<^verbatim>\<open>fclose\<close> are left out.
\<close>

subsection \<open>Tokens and the token list\<close>

datatype TokenType =
    INT_KEYWORD
  | RETURN_KEYWORD
  | IDENTIFIER
  | L_PARAN
  | R_PARAN
  | L_BRACE
  | R_BRACE
  | INT_LITERAL
  | SEMICOLON
  | UNKNOWN

record Token =
  ttype :: TokenType
  tvalue :: string

text \<open>
  \<open>tokens\<close> is the allocated array, one entry per cell, \<open>None\<close> for a cell never written;
  its length is the number of cells the last \<^verbatim>\<open>malloc\<close> or \<^verbatim>\<open>realloc\<close> asked for.
\<close>

record TokenList =
  tokens :: "Token option list"
  tsize :: nat
  capacity :: nat

text \<open>
  \<open>Null_Dereference\<close> is a store through the \<^verbatim>\<open>NULL\<close> that an unchecked \<^verbatim>\<open>malloc\<close>
  returned, \<open>Token_Overflow\<close> a store outside the cells of the token array,
  \<open>Scratch_Overflow\<close> a store outside \<^verbatim>\<open>buffer\<close>, \<open>Exit_Failure\<close> the call
  \<^verbatim>\<open>exit(EXIT_FAILURE)\<close>.
\<close>

datatype fault =
    Exit_Failure
  | Token_Overflow
  | Scratch_Overflow
  | Null_Dereference

definition size_t_range :: nat where
  "size_t_range = 2 ^ 64"

definition sizeof_Token :: nat where
  "sizeof_Token = 16"

definition sizeof_TokenList :: nat where
  "sizeof_TokenList = 24"

text \<open>
  \<open>create_token_list\<close>: neither \<^verbatim>\<open>malloc\<close> is tested. Without the block for the list
  the store \<^verbatim>\<open>list->size = 0\<close> goes through \<^verbatim>\<open>NULL\<close>. The parameter is a \<^verbatim>\<open>size_t\<close>,
  the argument reduced modulo \<open>2 ^ 64\<close>. The request for the array is the product
  \<^verbatim>\<open>sizeof(Token) * init_capacity\<close> in \<^verbatim>\<open>size_t\<close>; the array has the cells that fit
  into the bytes requested, and no cell when \<^verbatim>\<open>malloc\<close> returns \<^verbatim>\<open>NULL\<close>, whatever
  \<open>capacity\<close> says.
\<close>

definition create_token_list :: "(nat \<Rightarrow> bool) \<Rightarrow> nat \<Rightarrow> fault + TokenList" where
  "create_token_list malloc_ok init_capacity =
     (if malloc_ok sizeof_TokenList then
        (let cap = init_capacity mod size_t_range;
             bytes = (sizeof_Token * cap) mod size_t_range in
         Inr \<lparr>tokens = (if malloc_ok bytes then replicate (bytes div sizeof_Token) None else []),
              tsize = 0, capacity = cap\<rparr>)
      else Inl Null_Dereference)"

text \<open>\<^verbatim>\<open>realloc\<close> of the cells of a block to \<open>n\<close> cells, when it returns a block.\<close>

definition realloc :: "Token option list \<Rightarrow> nat \<Rightarrow> Token option list" where
  "realloc cells n = take n cells @ replicate (n - length cells) None"

text \<open>
  The first half of \<open>add_token\<close>: the test \<^verbatim>\<open>size >= capacity\<close>, the doubling
  \<^verbatim>\<open>capacity *= 2\<close> and the request \<^verbatim>\<open>sizeof(Token) * capacity\<close>, both in \<^verbatim>\<open>size_t\<close>,
  and the reallocation, with \<^verbatim>\<open>exit(EXIT_FAILURE)\<close> when \<^verbatim>\<open>realloc\<close> returns \<^verbatim>\<open>NULL\<close>.
\<close>

definition grow :: "(nat \<Rightarrow> bool) \<Rightarrow> TokenList \<Rightarrow> fault + TokenList" where
  "grow realloc_ok list =
     (if tsize list \<ge> capacity list then
        (let cap = (capacity list * 2) mod size_t_range;
             bytes = (sizeof_Token * cap) mod size_t_range in
         if realloc_ok bytes
         then Inr (list\<lparr>capacity := cap,
                        tokens := realloc (tokens list) (bytes div sizeof_Token)\<rparr>)
         else Inl Exit_Failure)
      else Inr list)"

text \<open>
  The second half: \<^verbatim>\<open>&list->tokens[list->size++]\<close> and the two stores through it. The
  cell written is cell \<open>tsize\<close>; outside the allocated cells the store is a fault.
\<close>

definition store_token :: "TokenList \<Rightarrow> TokenType \<Rightarrow> string \<Rightarrow> fault + TokenList" where
  "store_token list ty v =
     (if tsize list < length (tokens list)
      then Inr (list\<lparr>tokens := (tokens list)[tsize list := Some \<lparr>ttype = ty, tvalue = v\<rparr>],
                     tsize := (tsize list + 1) mod size_t_range\<rparr>)
      else Inl Token_Overflow)"

definition add_token :: "(nat \<Rightarrow> bool) \<Rightarrow> TokenList \<Rightarrow> TokenType \<Rightarrow> string \<Rightarrow> fault + TokenList" where
  "add_token realloc_ok list ty v =
     (case grow realloc_ok list of
        Inl e \<Rightarrow> Inl e
      | Inr list' \<Rightarrow> store_token list' ty v)"

text \<open>The tokens a reader such as \<open>print_tokens\<close> meets: cells \<open>0\<close> to \<open>tsize - 1\<close>.\<close>

definition token_seq :: "TokenList \<Rightarrow> Token list" where
  "token_seq list = map the (take (tsize list) (tokens list))"

text \<open>A run of appends, stopping at the first fault.\<close>

fun add_tokens :: "(nat \<Rightarrow> bool) \<Rightarrow> TokenList \<Rightarrow> (TokenType \<times> string) list \<Rightarrow> fault + TokenList" where
  "add_tokens realloc_ok list [] = Inr list"
| "add_tokens realloc_ok list ((ty, v) # rest) =
     (case add_token realloc_ok list ty v of
        Inl e \<Rightarrow> Inl e
      | Inr list' \<Rightarrow> add_tokens realloc_ok list' rest)"

subsection \<open>Characters, the stream and the scratch buffer\<close>

definition EOF :: int where
  "EOF = - 1"

definition NUL :: char where
  "NUL = CHR 0x00"

definition char_to_int :: "char \<Rightarrow> int" where
  "char_to_int c = (if of_char c < (128::int) then of_char c else of_char c - 256)"

definition int_to_char :: "int \<Rightarrow> char" where
  "int_to_char i = char_of i"

definition isspace :: "int \<Rightarrow> bool" where
  "isspace c \<longleftrightarrow> c = 32 \<or> (9 \<le> c \<and> c \<le> 13)"

definition isdigit :: "int \<Rightarrow> bool" where
  "isdigit c \<longleftrightarrow> 48 \<le> c \<and> c \<le> 57"

definition isalpha :: "int \<Rightarrow> bool" where
  "isalpha c \<longleftrightarrow> (65 \<le> c \<and> c \<le> 90) \<or> (97 \<le> c \<and> c \<le> 122)"

definition isalnum :: "int \<Rightarrow> bool" where
  "isalnum c \<longleftrightarrow> isalpha c \<or> isdigit c"

text \<open>
  The open file is the list of bytes not yet read. \<open>fgetc\<close> returns the next byte as an
  \<^verbatim>\<open>unsigned char\<close> converted to \<^verbatim>\<open>int\<close>, or \<open>EOF\<close>; \<open>ungetc\<close> does nothing when
  handed \<open>EOF\<close> and otherwise pushes its argument back, converted to \<^verbatim>\<open>unsigned char\<close>.
\<close>

fun fgetc :: "string \<Rightarrow> int \<times> string" where
  "fgetc [] = (EOF, [])"
| "fgetc (x # xs) = (of_char x, xs)"

definition ungetc :: "int \<Rightarrow> string \<Rightarrow> string" where
  "ungetc c file = (if c = EOF then file else char_of c # file)"

text \<open>
  \<^verbatim>\<open>char buffer[256]\<close> is a map from indices to bytes; a store at an index from 256 on
  is a fault. \<open>c_string\<close> is the string a \<^verbatim>\<open>strcmp\<close> or \<^verbatim>\<open>strdup\<close> reads from the start
  of the buffer: the bytes before the first NUL.
\<close>

type_synonym scratch = "nat \<Rightarrow> char"

definition buffer_store :: "scratch \<Rightarrow> nat \<Rightarrow> char \<Rightarrow> fault + scratch" where
  "buffer_store buffer i c = (if i < 256 then Inr (buffer(i := c)) else Inl Scratch_Overflow)"

definition c_string :: "scratch \<Rightarrow> string" where
  "c_string buffer = takeWhile (\<lambda>x. x \<noteq> NUL) (map buffer [0..<256])"

text \<open>The loop that zeroes the 256 bytes after a run.\<close>

definition clear_buffer :: "scratch \<Rightarrow> scratch" where
  "clear_buffer buffer = (\<lambda>i. if i < 256 then NUL else buffer i)"

subsection \<open>The scanner\<close>

text \<open>
  \<^verbatim>\<open>while (isalnum(c = fgetc(file))) buffer[buffer_index++] = c;\<close> and its twin with
  \<^verbatim>\<open>isdigit\<close>. The result is the buffer, the index, the character that ended the loop
  and the stream behind it.
\<close>

function alnum_loop :: "scratch \<Rightarrow> nat \<Rightarrow> string \<Rightarrow> fault + (scratch \<times> nat \<times> char \<times> string)" where
  "alnum_loop buffer buffer_index file =
     (let c = int_to_char (fst (fgetc file)); file' = snd (fgetc file) in
      if isalnum (char_to_int c) then
        (case buffer_store buffer buffer_index c of
           Inl e \<Rightarrow> Inl e
         | Inr buffer' \<Rightarrow> alnum_loop buffer' (buffer_index + 1) file')
      else Inr (buffer, buffer_index, c, file'))"
  by pat_completeness auto

function digit_loop :: "scratch \<Rightarrow> nat \<Rightarrow> string \<Rightarrow> fault + (scratch \<times> nat \<times> char \<times> string)" where
  "digit_loop buffer buffer_index file =
     (let c = int_to_char (fst (fgetc file)); file' = snd (fgetc file) in
      if isdigit (char_to_int c) then
        (case buffer_store buffer buffer_index c of
           Inl e \<Rightarrow> Inl e
         | Inr buffer' \<Rightarrow> digit_loop buffer' (buffer_index + 1) file')
      else Inr (buffer, buffer_index, c, file'))"
  by pat_completeness auto

text \<open>
  The \<^verbatim>\<open>while ((c = fgetc(file)) != EOF)\<close> loop of \<open>lex\<close>, one call per iteration,
  on the token list, the scratch buffer, \<open>buffer_index\<close> and the stream. The alphabetic
  branch goes on with the stream as \<open>alnum_loop\<close> left it (its \<^verbatim>\<open>ungetc\<close> is commented
  out in the source); the digit branch calls \<open>ungetc\<close>.
\<close>

function lex_loop :: "(nat \<Rightarrow> bool) \<Rightarrow> TokenList \<Rightarrow> scratch \<Rightarrow> nat \<Rightarrow> string \<Rightarrow> fault + TokenList" where
  "lex_loop realloc_ok toks buffer buffer_index file =
     (let c = int_to_char (fst (fgetc file)); file1 = snd (fgetc file) in
      if char_to_int c = EOF then Inr toks
      else if isspace (char_to_int c) then
        lex_loop realloc_ok toks buffer buffer_index file1
      else if isalpha (char_to_int c) then
        (case buffer_store buffer buffer_index c of
           Inl e \<Rightarrow> Inl e
         | Inr b1 \<Rightarrow>
        (case alnum_loop b1 (buffer_index + 1) file1 of
           Inl e \<Rightarrow> Inl e
         | Inr (b2, i2, c2, file2) \<Rightarrow>
        (case buffer_store b2 i2 NUL of
           Inl e \<Rightarrow> Inl e
         | Inr b3 \<Rightarrow>
        (case (if c_string b3 = ''int'' then add_token realloc_ok toks INT_KEYWORD ''int''
               else if c_string b3 = ''return'' then
                 add_token realloc_ok toks RETURN_KEYWORD ''return''
               else add_token realloc_ok toks IDENTIFIER (c_string b3)) of
           Inl e \<Rightarrow> Inl e
         | Inr toks' \<Rightarrow> lex_loop realloc_ok toks' (clear_buffer b3) 0 file2))))
      else if isdigit (char_to_int c) then
        (case buffer_store buffer buffer_index c of
           Inl e \<Rightarrow> Inl e
         | Inr b1 \<Rightarrow>
        (case digit_loop b1 (buffer_index + 1) file1 of
           Inl e \<Rightarrow> Inl e
         | Inr (b2, i2, c2, file2) \<Rightarrow>
        (case buffer_store b2 i2 NUL of
           Inl e \<Rightarrow> Inl e
         | Inr b3 \<Rightarrow>
        (case add_token realloc_ok toks INT_LITERAL (c_string b3) of
           Inl e \<Rightarrow> Inl e
         | Inr toks' \<Rightarrow>
             lex_loop realloc_ok toks' (clear_buffer b3) 0 (ungetc (char_to_int c2) file2)))))
      else if c = CHR ''('' then
        (case add_token realloc_ok toks L_PARAN ''('' of
           Inl e \<Rightarrow> Inl e
         | Inr toks' \<Rightarrow> lex_loop realloc_ok toks' buffer buffer_index file1)
      else if c = CHR '')'' then
        (case add_token realloc_ok toks R_PARAN '')'' of
           Inl e \<Rightarrow> Inl e
         | Inr toks' \<Rightarrow> lex_loop realloc_ok toks' buffer buffer_index file1)
      else if c = CHR ''{'' then
        (case add_token realloc_ok toks L_BRACE ''{'' of
           Inl e \<Rightarrow> Inl e
         | Inr toks' \<Rightarrow> lex_loop realloc_ok toks' buffer buffer_index file1)
      else if c = CHR ''}'' then
        (case add_token realloc_ok toks R_BRACE ''}'' of
           Inl e \<Rightarrow> Inl e
         | Inr toks' \<Rightarrow> lex_loop realloc_ok toks' buffer buffer_index file1)
      else if c = CHR '';'' then
        (case add_token realloc_ok toks SEMICOLON '';'' of
           Inl e \<Rightarrow> Inl e
         | Inr toks' \<Rightarrow> lex_loop realloc_ok toks' buffer buffer_index file1)
      else
        (case add_token realloc_ok toks UNKNOWN (c_string (buffer(0 := c, 1 := NUL))) of
           Inl e \<Rightarrow> Inl e
         | Inr toks' \<Rightarrow>
             lex_loop realloc_ok toks' (buffer(0 := c, 1 := NUL)) buffer_index file1))"
  by pat_completeness auto

text \<open>
  \<open>lex\<close>: \<^verbatim>\<open>fopen\<close> is a lookup in the file system \<open>fs\<close>, \<open>None\<close> for a file that cannot
  be opened; the result \<open>None\<close> is the \<^verbatim>\<open>NULL\<close> that \<open>lex\<close> returns. \<open>garbage\<close> is the
  content of the uninitialised \<^verbatim>\<open>buffer\<close>. The two requests of \<open>create_token_list\<close>, 24
  and 160 bytes, are granted.
\<close>

definition lex :: "(nat \<Rightarrow> bool) \<Rightarrow> (string \<rightharpoonup> string) \<Rightarrow> scratch \<Rightarrow> string \<Rightarrow> fault + TokenList option" where
  "lex realloc_ok fs garbage filename =
     (case fs filename of
        None \<Rightarrow> Inr None
      | Some file \<Rightarrow>
          (case create_token_list (\<lambda>bytes. True) 10 of
             Inl e \<Rightarrow> Inl e
           | Inr toks \<Rightarrow>
               (case lex_loop realloc_ok toks garbage 0 file of
                  Inl e \<Rightarrow> Inl e
                | Inr toks' \<Rightarrow> Inr (Some toks'))))"

subsection \<open>The scanner with the calls of the allocator\<close>

text \<open>
  The same functions once more, each returning next to its result the calls of
  \<^verbatim>\<open>malloc\<close>, \<^verbatim>\<open>realloc\<close> and \<^verbatim>\<open>strdup\<close> that it made, in the order of the source:
  \<open>Malloc n\<close> and \<open>Realloc n\<close> are requests of \<open>n\<close> bytes, \<open>Strdup v\<close> is the copy of
  the string \<open>v\<close>. A call is recorded whether or not it returns a block. In \<open>add_token\<close>
  the store \<^verbatim>\<open>token->type = type\<close> comes before the \<^verbatim>\<open>strdup\<close>, which a store outside
  the array therefore does not reach.
\<close>

datatype alloc_call =
    Malloc nat
  | Realloc nat
  | Strdup string

text \<open>\<open>with_log lg p\<close>: the calls \<open>lg\<close> were made before those of \<open>p\<close>.\<close>

definition with_log :: "alloc_call list \<Rightarrow> 'a \<times> alloc_call list \<Rightarrow> 'a \<times> alloc_call list" where
  "with_log lg p = (fst p, lg @ snd p)"

text \<open>
  \<open>create_token_list\<close>, \<open>grow\<close>, \<open>store_token\<close> and \<open>add_token\<close> with their calls. The
  second \<^verbatim>\<open>malloc\<close> of \<open>create_token_list\<close> is not reached when the first returned
  \<^verbatim>\<open>NULL\<close>.
\<close>

definition create_token_list_log :: "(nat \<Rightarrow> bool) \<Rightarrow> nat \<Rightarrow> (fault + TokenList) \<times> alloc_call list" where
  "create_token_list_log malloc_ok init_capacity =
     (if malloc_ok sizeof_TokenList then
        (let cap = init_capacity mod size_t_range;
             bytes = (sizeof_Token * cap) mod size_t_range in
         (Inr \<lparr>tokens = (if malloc_ok bytes then replicate (bytes div sizeof_Token) None else []),
               tsize = 0, capacity = cap\<rparr>,
          [Malloc sizeof_TokenList, Malloc bytes]))
      else (Inl Null_Dereference, [Malloc sizeof_TokenList]))"

definition grow_log :: "(nat \<Rightarrow> bool) \<Rightarrow> TokenList \<Rightarrow> (fault + TokenList) \<times> alloc_call list" where
  "grow_log realloc_ok list =
     (if tsize list \<ge> capacity list then
        (let cap = (capacity list * 2) mod size_t_range;
             bytes = (sizeof_Token * cap) mod size_t_range in
         if realloc_ok bytes
         then (Inr (list\<lparr>capacity := cap,
                         tokens := realloc (tokens list) (bytes div sizeof_Token)\<rparr>),
               [Realloc bytes])
         else (Inl Exit_Failure, [Realloc bytes]))
      else (Inr list, []))"

definition store_token_log :: "TokenList \<Rightarrow> TokenType \<Rightarrow> string \<Rightarrow> (fault + TokenList) \<times> alloc_call list" where
  "store_token_log list ty v =
     (if tsize list < length (tokens list)
      then (Inr (list\<lparr>tokens := (tokens list)[tsize list := Some \<lparr>ttype = ty, tvalue = v\<rparr>],
                      tsize := (tsize list + 1) mod size_t_range\<rparr>),
            [Strdup v])
      else (Inl Token_Overflow, []))"

definition add_token_log :: "(nat \<Rightarrow> bool) \<Rightarrow> TokenList \<Rightarrow> TokenType \<Rightarrow> string \<Rightarrow> (fault + TokenList) \<times> alloc_call list" where
  "add_token_log realloc_ok list ty v =
     (case grow_log realloc_ok list of
        (Inl e, lg) \<Rightarrow> (Inl e, lg)
      | (Inr list', lg) \<Rightarrow> with_log lg (store_token_log list' ty v))"

text \<open>The loop of \<open>lex\<close> with the calls of each \<open>add_token\<close>.\<close>

function lex_loop_log :: "(nat \<Rightarrow> bool) \<Rightarrow> TokenList \<Rightarrow> scratch \<Rightarrow> nat \<Rightarrow> string \<Rightarrow> (fault + TokenList) \<times> alloc_call list" where
  "lex_loop_log realloc_ok toks buffer buffer_index file =
     (let c = int_to_char (fst (fgetc file)); file1 = snd (fgetc file) in
      if char_to_int c = EOF then (Inr toks, [])
      else if isspace (char_to_int c) then
        lex_loop_log realloc_ok toks buffer buffer_index file1
      else if isalpha (char_to_int c) then
        (case buffer_store buffer buffer_index c of
           Inl e \<Rightarrow> (Inl e, [])
         | Inr b1 \<Rightarrow>
        (case alnum_loop b1 (buffer_index + 1) file1 of
           Inl e \<Rightarrow> (Inl e, [])
         | Inr (b2, i2, c2, file2) \<Rightarrow>
        (case buffer_store b2 i2 NUL of
           Inl e \<Rightarrow> (Inl e, [])
         | Inr b3 \<Rightarrow>
        (case (if c_string b3 = ''int'' then add_token_log realloc_ok toks INT_KEYWORD ''int''
               else if c_string b3 = ''return'' then
                 add_token_log realloc_ok toks RETURN_KEYWORD ''return''
               else add_token_log realloc_ok toks IDENTIFIER (c_string b3)) of
           (Inl e, lg) \<Rightarrow> (Inl e, lg)
         | (Inr toks', lg) \<Rightarrow>
             with_log lg (lex_loop_log realloc_ok toks' (clear_buffer b3) 0 file2)))))
      else if isdigit (char_to_int c) then
        (case buffer_store buffer buffer_index c of
           Inl e \<Rightarrow> (Inl e, [])
         | Inr b1 \<Rightarrow>
        (case digit_loop b1 (buffer_index + 1) file1 of
           Inl e \<Rightarrow> (Inl e, [])
         | Inr (b2, i2, c2, file2) \<Rightarrow>
        (case buffer_store b2 i2 NUL of
           Inl e \<Rightarrow> (Inl e, [])
         | Inr b3 \<Rightarrow>
        (case add_token_log realloc_ok toks INT_LITERAL (c_string b3) of
           (Inl e, lg) \<Rightarrow> (Inl e, lg)
         | (Inr toks', lg) \<Rightarrow>
             with_log lg (lex_loop_log realloc_ok toks' (clear_buffer b3) 0
                            (ungetc (char_to_int c2) file2))))))
      else if c = CHR ''('' then
        (case add_token_log realloc_ok toks L_PARAN ''('' of
           (Inl e, lg) \<Rightarrow> (Inl e, lg)
         | (Inr toks', lg) \<Rightarrow>
             with_log lg (lex_loop_log realloc_ok toks' buffer buffer_index file1))
      else if c = CHR '')'' then
        (case add_token_log realloc_ok toks R_PARAN '')'' of
           (Inl e, lg) \<Rightarrow> (Inl e, lg)
         | (Inr toks', lg) \<Rightarrow>
             with_log lg (lex_loop_log realloc_ok toks' buffer buffer_index file1))
      else if c = CHR ''{'' then
        (case add_token_log realloc_ok toks L_BRACE ''{'' of
           (Inl e, lg) \<Rightarrow> (Inl e, lg)
         | (Inr toks', lg) \<Rightarrow>
             with_log lg (lex_loop_log realloc_ok toks' buffer buffer_index file1))
      else if c = CHR ''}'' then
        (case add_token_log realloc_ok toks R_BRACE ''}'' of
           (Inl e, lg) \<Rightarrow> (Inl e, lg)
         | (Inr toks', lg) \<Rightarrow>
             with_log lg (lex_loop_log realloc_ok toks' buffer buffer_index file1))
      else if c = CHR '';'' then
        (case add_token_log realloc_ok toks SEMICOLON '';'' of
           (Inl e, lg) \<Rightarrow> (Inl e, lg)
         | (Inr toks', lg) \<Rightarrow>
             with_log lg (lex_loop_log realloc_ok toks' buffer buffer_index file1))
      else
        (case add_token_log realloc_ok toks UNKNOWN (c_string (buffer(0 := c, 1 := NUL))) of
           (Inl e, lg) \<Rightarrow> (Inl e, lg)
         | (Inr toks', lg) \<Rightarrow>
             with_log lg (lex_loop_log realloc_ok toks' (buffer(0 := c, 1 := NUL))
                            buffer_index file1)))"
  by pat_completeness auto

text \<open>
  \<open>lex\<close> with the calls of the allocator: none before \<^verbatim>\<open>fopen\<close> and none on the path
  that returns \<^verbatim>\<open>NULL\<close>; after that those of \<open>create_token_list(10)\<close>, then those of the
  loop.
\<close>

definition lex_log :: "(nat \<Rightarrow> bool) \<Rightarrow> (nat \<Rightarrow> bool) \<Rightarrow> (string \<rightharpoonup> string) \<Rightarrow> scratch \<Rightarrow> string \<Rightarrow> (fault + TokenList option) \<times> alloc_call list" where
  "lex_log malloc_ok realloc_ok fs garbage filename =
     (case fs filename of
        None \<Rightarrow> (Inr None, [])
      | Some file \<Rightarrow>
          (case create_token_list_log malloc_ok 10 of
             (Inl e, lg) \<Rightarrow> (Inl e, lg)
           | (Inr toks, lg) \<Rightarrow>
               with_log lg
                 (case lex_loop_log realloc_ok toks garbage 0 file of
                    (Inl e, lg') \<Rightarrow> (Inl e, lg')
                  | (Inr toks', lg') \<Rightarrow> (Inr (Some toks'), lg'))))"

section \<open>Notions used in the statements and proofs\<close>

text \<open>The token list that holds the tokens \<open>ts\<close> in an array of \<open>cap\<close> cells.\<close>

definition token_list_of :: "Token list \<Rightarrow> nat \<Rightarrow> TokenList" where
  "token_list_of ts cap =
     \<lparr>tokens = map Some ts @ replicate (cap - length ts) None, tsize = length ts, capacity = cap\<rparr>"

text \<open>The token a pair of a kind and a text stands for.\<close>

definition mk_token :: "TokenType \<times> string \<Rightarrow> Token" where
  "mk_token p = \<lparr>ttype = fst p, tvalue = snd p\<rparr>"

text \<open>
  The token lists that \<open>add_token\<close> keeps building on: as many cells as the capacity
  says, not more tokens than cells, and a capacity that is not 0.
\<close>

definition list_ok :: "TokenList \<Rightarrow> bool" where
  "list_ok l \<longleftrightarrow> length (tokens l) = capacity l \<and> tsize l \<le> capacity l \<and> 1 \<le> capacity l"

text \<open>\<open>store_run b i r\<close> is the buffer \<open>b\<close> after the bytes of \<open>r\<close> were stored from index \<open>i\<close> on.\<close>

definition store_run :: "scratch \<Rightarrow> nat \<Rightarrow> string \<Rightarrow> scratch" where
  "store_run b i r = (\<lambda>j. if i \<le> j \<and> j < i + length r then r ! (j - i) else b j)"

text \<open>
  The characters that keep the two inner loops running, and the character a loop stops
  at: the head of what is left, or what \<^verbatim>\<open>(char) EOF\<close> is at the end of the stream.
\<close>

definition alnum_char :: "char \<Rightarrow> bool" where
  "alnum_char x = isalnum (char_to_int x)"

definition digit_char :: "char \<Rightarrow> bool" where
  "digit_char x = isdigit (char_to_int x)"

definition run_end :: "string \<Rightarrow> char" where
  "run_end rest = (case rest of [] \<Rightarrow> int_to_char EOF | x # xs \<Rightarrow> x)"

text \<open>
  \<open>run_at s\<close> is the length of the run a scan step accumulates when it starts on \<open>s\<close>: a
  letter and the letters and digits behind it, or a digit and the digits behind it.
  \<open>longest_run s\<close> is the greatest such length over all the positions of \<open>s\<close>, so it
  bounds every run the scanner accumulates.
\<close>

definition run_at :: "string \<Rightarrow> nat" where
  "run_at s =
     (case s of
        [] \<Rightarrow> 0
      | c # f \<Rightarrow>
          if isalpha (char_to_int c) then Suc (length (takeWhile alnum_char f))
          else if isdigit (char_to_int c) then Suc (length (takeWhile digit_char f))
          else 0)"

fun longest_run :: "string \<Rightarrow> nat" where
  "longest_run [] = 0"
| "longest_run (x # xs) = max (run_at (x # xs)) (longest_run xs)"

section \<open>Auxiliary facts\<close>

subsection \<open>Termination of the loops\<close>

lemma int_to_char_EOF: "char_to_int (int_to_char EOF) = - 1"
  by (simp add: int_to_char_def EOF_def char_to_int_def)

lemma int_to_char_m1: "char_to_int (int_to_char (- 1)) = - 1"
  using int_to_char_EOF by (simp add: EOF_def)

lemma not_isalnum_EOF: "\<not> isalnum (char_to_int (int_to_char EOF))"
  by (simp add: int_to_char_EOF isalnum_def isalpha_def isdigit_def)

lemma not_isdigit_EOF: "\<not> isdigit (char_to_int (int_to_char EOF))"
  by (simp add: int_to_char_EOF isdigit_def)

termination alnum_loop
  apply (relation "measure (\<lambda>(b, i, f). length f)")
   apply simp
  subgoal for b i f
    by (cases f) (auto simp: not_isalnum_EOF)
  done

termination digit_loop
  apply (relation "measure (\<lambda>(b, i, f). length f)")
   apply simp
  subgoal for b i f
    by (cases f) (auto simp: not_isdigit_EOF)
  done

declare alnum_loop.simps [simp del] digit_loop.simps [simp del]

lemma int_to_char_inverse: "int_to_char (char_to_int c) = c"
proof -
  have "char_of (of_char c - (256::int)) = char_of (of_char c :: int)"
    by (simp only: char_of_quasi_inj) simp
  then show ?thesis
    by (simp add: int_to_char_def char_to_int_def)
qed

lemma int_to_char_of_char: "int_to_char (of_char x) = x"
  by (simp add: int_to_char_def)

lemma ungetc_char: "ungetc (char_to_int c) f = (if char_to_int c = EOF then f else c # f)"
  using int_to_char_inverse [of c] by (simp add: ungetc_def int_to_char_def)

lemma alnum_loop_Nil: "alnum_loop b i [] = Inr (b, i, int_to_char EOF, [])"
  by (simp add: alnum_loop.simps [of b i "[]"] not_isalnum_EOF)

lemma alnum_loop_Cons:
  "alnum_loop b i (x # xs) =
     (if isalnum (char_to_int x) then
        (case buffer_store b i x of Inl e \<Rightarrow> Inl e | Inr b' \<Rightarrow> alnum_loop b' (i + 1) xs)
      else Inr (b, i, x, xs))"
  by (simp add: alnum_loop.simps [of b i "x # xs"] int_to_char_of_char)

lemma digit_loop_Nil: "digit_loop b i [] = Inr (b, i, int_to_char EOF, [])"
  by (simp add: digit_loop.simps [of b i "[]"] not_isdigit_EOF)

lemma digit_loop_Cons:
  "digit_loop b i (x # xs) =
     (if isdigit (char_to_int x) then
        (case buffer_store b i x of Inl e \<Rightarrow> Inl e | Inr b' \<Rightarrow> digit_loop b' (i + 1) xs)
      else Inr (b, i, x, xs))"
  by (simp add: digit_loop.simps [of b i "x # xs"] int_to_char_of_char)

lemma alnum_loop_length:
  "alnum_loop b i f = Inr (b', i', c', f') \<Longrightarrow> length f' \<le> length f"
proof (induction f arbitrary: b i)
  case Nil
  then show ?case by (simp add: alnum_loop_Nil)
next
  case (Cons x xs)
  then show ?case
    by (fastforce simp: alnum_loop_Cons split: if_splits sum.splits)
qed

lemma digit_loop_length:
  "digit_loop b i f = Inr (b', i', c', f') \<Longrightarrow> length (ungetc (char_to_int c') f') \<le> length f"
proof (induction f arbitrary: b i)
  case Nil
  then show ?case
    by (auto simp add: digit_loop_Nil ungetc_def int_to_char_m1 EOF_def)
next
  case (Cons x xs)
  then show ?case
    by (fastforce simp: digit_loop_Cons ungetc_char split: if_splits sum.splits)
qed

termination lex_loop
proof (relation "measure (\<lambda>(r, t, b, i, f). length f)", goal_cases)
  case 1
  show ?case by simp
next
  case (2 r t b i f)
  then show ?case by (cases f) (simp_all add: int_to_char_m1 EOF_def)
next
  case (3 r t b i f c f1 b1 x2 b2 y i2 z c2 f2 b3 t')
  then show ?case
    using alnum_loop_length [of b1 "i + 1" f1 b2 i2 c2 f2]
    by (cases f) (simp_all add: int_to_char_m1 EOF_def)
next
  case (4 r t b i f c f1 b1 x2 b2 y i2 z c2 f2 b3 t')
  then show ?case
    using digit_loop_length [of b1 "i + 1" f1 b2 i2 c2 f2]
    by (cases f) (simp_all add: int_to_char_m1 EOF_def)
next
  case (5 r t b i f)
  then show ?case by (cases f) (simp_all add: int_to_char_m1 EOF_def)
next
  case (6 r t b i f)
  then show ?case by (cases f) (simp_all add: int_to_char_m1 EOF_def)
next
  case (7 r t b i f)
  then show ?case by (cases f) (simp_all add: int_to_char_m1 EOF_def)
next
  case (8 r t b i f)
  then show ?case by (cases f) (simp_all add: int_to_char_m1 EOF_def)
next
  case (9 r t b i f)
  then show ?case by (cases f) (simp_all add: int_to_char_m1 EOF_def)
next
  case (10 r t b i f)
  then show ?case by (cases f) (simp_all add: int_to_char_m1 EOF_def)
qed

declare lex_loop.simps [simp del]

termination lex_loop_log
  apply (relation "measure (\<lambda>(r, t, b, i, f). length f)")
  apply simp
  subgoal for r t b i f by (cases f) (simp_all add: int_to_char_m1 EOF_def)
  subgoal premises p for r t b i f c f1 b1 x2 b2 y i2 z c2 f2
    using p alnum_loop_length [of b1 "i + 1" f1 b2 i2 c2 f2]
    by (cases f) (simp_all add: int_to_char_m1 EOF_def)
  subgoal premises p for r t b i f c f1 b1 x2 b2 y i2 z c2 f2
    using p digit_loop_length [of b1 "i + 1" f1 b2 i2 c2 f2]
    by (cases f) (simp_all add: int_to_char_m1 EOF_def)
  subgoal for r t b i f by (cases f) (simp_all add: int_to_char_m1 EOF_def)
  subgoal for r t b i f by (cases f) (simp_all add: int_to_char_m1 EOF_def)
  subgoal for r t b i f by (cases f) (simp_all add: int_to_char_m1 EOF_def)
  subgoal for r t b i f by (cases f) (simp_all add: int_to_char_m1 EOF_def)
  subgoal for r t b i f by (cases f) (simp_all add: int_to_char_m1 EOF_def)
  subgoal for r t b i f by (cases f) (simp_all add: int_to_char_m1 EOF_def)
  done

declare lex_loop_log.simps [simp del]

subsection \<open>Token lists\<close>

lemma block_cells: "(sizeof_Token * n) mod size_t_range div sizeof_Token = n mod 2 ^ 60"
proof -
  have "(16 * n) mod (16 * 2 ^ 60) = 16 * (n mod 2 ^ 60)"
    by (simp only: mult_mod_right)
  then show ?thesis
    by (simp add: sizeof_Token_def size_t_range_def)
qed

lemma create_token_list_of:
  assumes "malloc_ok sizeof_TokenList" and "malloc_ok (sizeof_Token * c)" and "c < 2 ^ 60"
  shows "create_token_list malloc_ok c = Inr (token_list_of [] c)"
proof -
  have cap: "c mod size_t_range = c"
    using assms(3) by (simp add: size_t_range_def)
  have "sizeof_Token * c < size_t_range"
    using assms(3) by (simp add: sizeof_Token_def size_t_range_def)
  then have bytes: "(sizeof_Token * c) mod size_t_range = sizeof_Token * c"
    by simp
  show ?thesis
    unfolding create_token_list_def Let_def cap bytes
    using assms(1,2) by (simp add: token_list_of_def sizeof_Token_def)
qed

lemma create_token_list_10: "create_token_list (\<lambda>bytes. True) 10 = Inr (token_list_of [] 10)"
  by (rule create_token_list_of) simp_all

lemma token_seq_of: "token_seq (token_list_of ts cap) = ts"
  by (simp add: token_seq_def token_list_of_def comp_def)

lemma add_token_of_room:
  assumes "length ts < cap" and "cap < 2 ^ 64"
  shows "add_token realloc_ok (token_list_of ts cap) ty v =
           Inr (token_list_of (ts @ [\<lparr>ttype = ty, tvalue = v\<rparr>]) cap)"
proof -
  have "replicate (cap - length ts) None = (None :: Token option) # replicate (cap - Suc (length ts)) None"
    using assms by (metis Suc_diff_Suc replicate_Suc)
  moreover have "Suc (length ts) mod size_t_range = Suc (length ts)"
    using assms by (simp add: size_t_range_def)
  ultimately show ?thesis
    using assms
    by (simp add: add_token_def grow_def store_token_def token_list_of_def list_update_append)
qed

lemma add_token_of_full:
  assumes "length ts = cap" and "cap < 2 ^ 60"
  shows "add_token realloc_ok (token_list_of ts cap) ty v =
           (if realloc_ok ((sizeof_Token * (cap * 2)) mod size_t_range)
            then (if cap = 0 \<or> 2 ^ 59 \<le> cap then Inl Token_Overflow
                  else Inr (token_list_of (ts @ [\<lparr>ttype = ty, tvalue = v\<rparr>]) (cap * 2)))
            else Inl Exit_Failure)"
proof -
  let ?bytes = "(sizeof_Token * (cap * 2)) mod size_t_range"
  have dbl: "(cap * 2) mod size_t_range = cap * 2"
    using assms(2) by (simp add: size_t_range_def)
  have cells: "?bytes div sizeof_Token = (cap * 2) mod 2 ^ 60"
    by (rule block_cells)
  have t: "tsize (token_list_of ts cap) = cap" "capacity (token_list_of ts cap) = cap"
    using assms(1) by (simp_all add: token_list_of_def)
  have g: "grow realloc_ok (token_list_of ts cap) =
      (if realloc_ok ?bytes
       then Inr ((token_list_of ts cap)\<lparr>capacity := cap * 2,
                   tokens := realloc (tokens (token_list_of ts cap)) ((cap * 2) mod 2 ^ 60)\<rparr>)
       else Inl Exit_Failure)"
    unfolding grow_def Let_def t dbl cells by simp
  show ?thesis
  proof (cases "realloc_ok ?bytes")
    case False
    then show ?thesis by (simp add: add_token_def g)
  next
    case ok: True
    then have a: "add_token realloc_ok (token_list_of ts cap) ty v =
        store_token ((token_list_of ts cap)\<lparr>capacity := cap * 2,
                   tokens := realloc (tokens (token_list_of ts cap)) ((cap * 2) mod 2 ^ 60)\<rparr>)
          ty v"
      by (simp add: add_token_def g)
    show ?thesis
    proof (cases "cap = 0 \<or> 2 ^ 59 \<le> cap")
      case True
      then have "(cap * 2) mod 2 ^ 60 \<le> cap"
      proof
        assume "cap = 0"
        then show ?thesis by simp
      next
        assume big: "(2::nat) ^ 59 \<le> cap"
        then have "(cap * 2) mod 2 ^ 60 = cap * 2 - 2 ^ 60"
          using assms(2) by (simp add: mod_if)
        with assms(2) show ?thesis by simp
      qed
      with ok True assms(1) show ?thesis
        unfolding a by (simp add: store_token_def realloc_def token_list_of_def)
    next
      case False
      then have small: "cap * 2 < 2 ^ 60" "0 < cap"
        by simp_all
      then have m: "(cap * 2) mod 2 ^ 60 = cap * 2"
        by simp
      have r: "replicate (cap * 2 - cap) None =
          (None :: Token option) # replicate (cap * 2 - Suc cap) None"
        using small(2)
        by (metis Suc_diff_Suc replicate_Suc less_add_same_cancel1 mult_2_right)
      have r': "replicate cap None = (None :: Token option) # replicate (cap - Suc 0) None"
        using small(2) by (cases cap) simp_all
      have inc: "Suc cap mod size_t_range = Suc cap"
        using assms(2) by (simp add: size_t_range_def)
      from ok False assms(1) show ?thesis
        unfolding a m
        by (simp add: store_token_def realloc_def token_list_of_def list_update_append r r' inc)
    qed
  qed
qed

lemma add_token_not_scratch: "add_token realloc_ok l ty v \<noteq> Inl Scratch_Overflow"
  by (simp add: add_token_def grow_def store_token_def Let_def split: sum.splits if_splits)

subsection \<open>Runs in the scratch buffer\<close>

lemma store_run_Nil: "store_run b i [] = b"
  by (auto simp: store_run_def fun_eq_iff)

lemma store_run_Cons: "store_run (b(i := x)) (Suc i) r = store_run b i (x # r)"
proof
  fix j
  show "store_run (b(i := x)) (Suc i) r j = store_run b i (x # r) j"
  proof (cases "j = i")
    case True
    then show ?thesis by (simp add: store_run_def)
  next
    case False
    show ?thesis
    proof (cases "i < j")
      case True
      then obtain k where "j = Suc (i + k)"
        using less_imp_Suc_add by blast
      then show ?thesis by (simp add: store_run_def)
    next
      case False
      with \<open>j \<noteq> i\<close> have "j < i" by simp
      then show ?thesis by (simp add: store_run_def)
    qed
  qed
qed

lemma clear_buffer_upd: "i < 256 \<Longrightarrow> clear_buffer (b(i := c)) = clear_buffer b"
  by (rule ext) (simp add: clear_buffer_def)

lemma clear_buffer_store_run: "i + length r \<le> 256 \<Longrightarrow> clear_buffer (store_run b i r) = clear_buffer b"
  by (rule ext) (simp add: clear_buffer_def store_run_def)

lemma alnum_loop_run:
  "alnum_loop b i f =
     (if takeWhile alnum_char f = [] \<or> i + length (takeWhile alnum_char f) \<le> 256
      then Inr (store_run b i (takeWhile alnum_char f), i + length (takeWhile alnum_char f),
                run_end (dropWhile alnum_char f), tl (dropWhile alnum_char f))
      else Inl Scratch_Overflow)"
proof (induction f arbitrary: b i)
  case Nil
  show ?case by (simp add: alnum_loop_Nil store_run_Nil run_end_def)
next
  case (Cons x xs)
  show ?case
  proof (cases "alnum_char x")
    case False
    then show ?thesis
      by (simp add: alnum_loop_Cons alnum_char_def store_run_Nil run_end_def)
  next
    case True
    show ?thesis
    proof (cases "i < 256")
      case False
      with True show ?thesis
        by (simp add: alnum_loop_Cons alnum_char_def [symmetric] buffer_store_def)
    next
      case i: True
      have "alnum_loop b i (x # xs) = alnum_loop (b(i := x)) (Suc i) xs"
        using True i by (simp add: alnum_loop_Cons alnum_char_def [symmetric] buffer_store_def)
      also note Cons.IH [of "b(i := x)" "Suc i"]
      finally show ?thesis
        using True i by (simp add: store_run_Cons)
    qed
  qed
qed

lemma digit_loop_run:
  "digit_loop b i f =
     (if takeWhile digit_char f = [] \<or> i + length (takeWhile digit_char f) \<le> 256
      then Inr (store_run b i (takeWhile digit_char f), i + length (takeWhile digit_char f),
                run_end (dropWhile digit_char f), tl (dropWhile digit_char f))
      else Inl Scratch_Overflow)"
proof (induction f arbitrary: b i)
  case Nil
  show ?case by (simp add: digit_loop_Nil store_run_Nil run_end_def)
next
  case (Cons x xs)
  show ?case
  proof (cases "digit_char x")
    case False
    then show ?thesis
      by (simp add: digit_loop_Cons digit_char_def store_run_Nil run_end_def)
  next
    case True
    show ?thesis
    proof (cases "i < 256")
      case False
      with True show ?thesis
        by (simp add: digit_loop_Cons digit_char_def [symmetric] buffer_store_def)
    next
      case i: True
      have "digit_loop b i (x # xs) = digit_loop (b(i := x)) (Suc i) xs"
        using True i by (simp add: digit_loop_Cons digit_char_def [symmetric] buffer_store_def)
      also note Cons.IH [of "b(i := x)" "Suc i"]
      finally show ?thesis
        using True i by (simp add: store_run_Cons)
    qed
  qed
qed

lemma takeWhile_map_upt:
  assumes "length s < n" and "NUL \<notin> set s"
    and "\<And>j. j < length s \<Longrightarrow> b j = s ! j" and "b (length s) = NUL"
  shows "takeWhile (\<lambda>x. x \<noteq> NUL) (map b [0..<n]) = s"
proof -
  have split: "[0..<n] = [0..<length s] @ length s # [Suc (length s)..<n]"
    using assms(1)
    by (metis upt_add_eq_append upt_conv_Cons le_add_diff_inverse less_imp_le_nat zero_le)
  have "map b [0..<length s] = s"
    by (rule nth_equalityI) (simp_all add: assms(3))
  then have m: "map b [0..<n] = s @ NUL # map b [Suc (length s)..<n]"
    using assms(4) by (simp only: split map_append list.map)
  have "\<And>x. x \<in> set s \<Longrightarrow> x \<noteq> NUL"
    using assms(2) by auto
  then have "takeWhile (\<lambda>x. x \<noteq> NUL) (s @ NUL # map b [Suc (length s)..<n]) =
      s @ takeWhile (\<lambda>x. x \<noteq> NUL) (NUL # map b [Suc (length s)..<n])"
    by (rule takeWhile_append2)
  then show ?thesis
    by (simp add: m)
qed

lemma c_string_prefix:
  assumes "length s < 256" and "NUL \<notin> set s"
    and "\<And>j. j < length s \<Longrightarrow> b j = s ! j" and "b (length s) = NUL"
  shows "c_string b = s"
  unfolding c_string_def using assms by (rule takeWhile_map_upt)

lemma c_string_run:
  assumes "length s < 256" and "NUL \<notin> set s"
  shows "c_string ((store_run b 0 s)(length s := NUL)) = s"
  using assms by (intro c_string_prefix) (simp_all add: store_run_def)

lemma char_to_int_NUL: "char_to_int NUL = 0"
  by (simp add: char_to_int_def NUL_def)

lemma alnum_char_not_NUL: "alnum_char x \<Longrightarrow> x \<noteq> NUL"
  by (auto simp: alnum_char_def char_to_int_NUL isalnum_def isalpha_def isdigit_def)

lemma digit_char_alnum: "digit_char x \<Longrightarrow> alnum_char x"
  by (simp add: digit_char_def alnum_char_def isalnum_def)

lemma NUL_notin_alnum: "NUL \<notin> set (takeWhile alnum_char f)"
  using alnum_char_not_NUL by (auto dest: set_takeWhileD)

lemma NUL_notin_digit: "NUL \<notin> set (takeWhile digit_char f)"
  using alnum_char_not_NUL digit_char_alnum by (auto dest: set_takeWhileD)

subsection \<open>One iteration of the loop of \<open>lex\<close>, by the class of the character read\<close>

lemma lex_loop_Nil: "lex_loop ra t b i [] = Inr t"
  by (simp add: lex_loop.simps [of ra t b i "[]"] int_to_char_m1 EOF_def Let_def)

lemma lex_loop_alpha:
  assumes "isalpha (char_to_int c)"
  shows "lex_loop ra t b 0 (c # f) =
     (if length (takeWhile alnum_char f) \<le> 254 then
        (case (if c # takeWhile alnum_char f = ''int'' then add_token ra t INT_KEYWORD ''int''
               else if c # takeWhile alnum_char f = ''return'' then
                 add_token ra t RETURN_KEYWORD ''return''
               else add_token ra t IDENTIFIER (c # takeWhile alnum_char f)) of
           Inl e \<Rightarrow> Inl e
         | Inr t' \<Rightarrow> lex_loop ra t' (clear_buffer b) 0 (tl (dropWhile alnum_char f)))
      else Inl Scratch_Overflow)"
proof -
  let ?r = "takeWhile alnum_char f"
  have c: "char_to_int c \<noteq> EOF" "\<not> isspace (char_to_int c)" "c \<noteq> NUL"
    using assms by (auto simp: isalpha_def EOF_def isspace_def char_to_int_NUL)
  have unfold: "lex_loop ra t b 0 (c # f) =
      (case alnum_loop (b(0 := c)) (Suc 0) f of
         Inl e \<Rightarrow> Inl e
       | Inr (b2, i2, c2, file2) \<Rightarrow>
      (case buffer_store b2 i2 NUL of
         Inl e \<Rightarrow> Inl e
       | Inr b3 \<Rightarrow>
      (case (if c_string b3 = ''int'' then add_token ra t INT_KEYWORD ''int''
             else if c_string b3 = ''return'' then add_token ra t RETURN_KEYWORD ''return''
             else add_token ra t IDENTIFIER (c_string b3)) of
         Inl e \<Rightarrow> Inl e
       | Inr t' \<Rightarrow> lex_loop ra t' (clear_buffer b3) 0 file2)))"
    using assms c
    by (simp add: lex_loop.simps [of ra t b 0 "c # f"] int_to_char_of_char buffer_store_def Let_def)
  show ?thesis
  proof (cases "length ?r \<le> 254")
    case True
    let ?b3 = "(store_run b 0 (c # ?r))(length (c # ?r) := NUL)"
    have loop: "alnum_loop (b(0 := c)) (Suc 0) f =
        Inr (store_run b 0 (c # ?r), length (c # ?r), run_end (dropWhile alnum_char f),
             tl (dropWhile alnum_char f))"
      using True by (simp add: alnum_loop_run store_run_Cons)
    have str: "c_string ?b3 = c # ?r"
      using True c NUL_notin_alnum [of f] by (intro c_string_run) simp_all
    have clr: "clear_buffer ?b3 = clear_buffer b"
      using True by (simp add: clear_buffer_upd clear_buffer_store_run)
    have st: "buffer_store (store_run b 0 (c # ?r)) (length (c # ?r)) NUL = Inr ?b3"
      using True by (simp add: buffer_store_def)
    show ?thesis
      unfolding unfold loop using True by (simp only: st str clr sum.case prod.case if_True)
  next
    case False
    show ?thesis
    proof (cases "length ?r = 255")
      case True
      have loop: "alnum_loop (b(0 := c)) (Suc 0) f =
        Inr (store_run b 0 (c # ?r), 256, run_end (dropWhile alnum_char f),
             tl (dropWhile alnum_char f))"
        using True by (simp add: alnum_loop_run store_run_Cons)
      show ?thesis
        unfolding unfold loop using True by (simp add: buffer_store_def)
    next
      case neq: False
      with False have "\<not> (?r = [] \<or> Suc 0 + length ?r \<le> 256)"
        by auto
      then have loop: "alnum_loop (b(0 := c)) (Suc 0) f = Inl Scratch_Overflow"
        by (simp add: alnum_loop_run)
      show ?thesis
        unfolding unfold loop using False by simp
    qed
  qed
qed

lemma lex_loop_digit:
  assumes "isdigit (char_to_int c)"
  shows "lex_loop ra t b 0 (c # f) =
     (if length (takeWhile digit_char f) \<le> 254 then
        (case add_token ra t INT_LITERAL (c # takeWhile digit_char f) of
           Inl e \<Rightarrow> Inl e
         | Inr t' \<Rightarrow>
             lex_loop ra t' (clear_buffer b) 0
               (ungetc (char_to_int (run_end (dropWhile digit_char f)))
                  (tl (dropWhile digit_char f))))
      else Inl Scratch_Overflow)"
proof -
  let ?r = "takeWhile digit_char f"
  have c: "char_to_int c \<noteq> EOF" "\<not> isspace (char_to_int c)" "c \<noteq> NUL"
    "\<not> isalpha (char_to_int c)"
    using assms by (auto simp: isdigit_def isalpha_def EOF_def isspace_def char_to_int_NUL)
  have unfold: "lex_loop ra t b 0 (c # f) =
      (case digit_loop (b(0 := c)) (Suc 0) f of
         Inl e \<Rightarrow> Inl e
       | Inr (b2, i2, c2, file2) \<Rightarrow>
      (case buffer_store b2 i2 NUL of
         Inl e \<Rightarrow> Inl e
       | Inr b3 \<Rightarrow>
      (case add_token ra t INT_LITERAL (c_string b3) of
         Inl e \<Rightarrow> Inl e
       | Inr t' \<Rightarrow> lex_loop ra t' (clear_buffer b3) 0 (ungetc (char_to_int c2) file2))))"
    using assms c
    by (simp add: lex_loop.simps [of ra t b 0 "c # f"] int_to_char_of_char buffer_store_def
        Let_def)
  show ?thesis
  proof (cases "length ?r \<le> 254")
    case True
    let ?b3 = "(store_run b 0 (c # ?r))(length (c # ?r) := NUL)"
    have loop: "digit_loop (b(0 := c)) (Suc 0) f =
        Inr (store_run b 0 (c # ?r), length (c # ?r), run_end (dropWhile digit_char f),
             tl (dropWhile digit_char f))"
      using True by (simp add: digit_loop_run store_run_Cons)
    have str: "c_string ?b3 = c # ?r"
      using True c NUL_notin_digit [of f] by (intro c_string_run) simp_all
    have clr: "clear_buffer ?b3 = clear_buffer b"
      using True by (simp add: clear_buffer_upd clear_buffer_store_run)
    have st: "buffer_store (store_run b 0 (c # ?r)) (length (c # ?r)) NUL = Inr ?b3"
      using True by (simp add: buffer_store_def)
    show ?thesis
      unfolding unfold loop using True by (simp only: st str clr sum.case prod.case if_True)
  next
    case False
    show ?thesis
    proof (cases "length ?r = 255")
      case True
      have loop: "digit_loop (b(0 := c)) (Suc 0) f =
        Inr (store_run b 0 (c # ?r), 256, run_end (dropWhile digit_char f),
             tl (dropWhile digit_char f))"
        using True by (simp add: digit_loop_run store_run_Cons)
      show ?thesis
        unfolding unfold loop using True by (simp add: buffer_store_def)
    next
      case neq: False
      with False have "\<not> (?r = [] \<or> Suc 0 + length ?r \<le> 256)"
        by auto
      then have loop: "digit_loop (b(0 := c)) (Suc 0) f = Inl Scratch_Overflow"
        by (simp add: digit_loop_run)
      show ?thesis
        unfolding unfold loop using False by simp
    qed
  qed
qed

lemma ungetc_m1: "ungetc (- 1) f = f"
  by (simp add: ungetc_def EOF_def)

lemma pushback:
  "ungetc (char_to_int (run_end rest)) (tl rest) =
     (case rest of [] \<Rightarrow> [] | x # xs \<Rightarrow> if char_to_int x = EOF then xs else x # xs)"
  by (cases rest) (simp_all add: run_end_def ungetc_char int_to_char_EOF ungetc_m1)

lemma lex_loop_space:
  assumes "isspace (char_to_int c)"
  shows "lex_loop ra t b i (c # f) = lex_loop ra t b i f"
proof -
  have "char_to_int c \<noteq> EOF"
    using assms by (auto simp: isspace_def EOF_def)
  with assms show ?thesis
    by (simp add: lex_loop.simps [of ra t b i "c # f"] int_to_char_of_char Let_def)
qed

lemma lex_loop_EOF_char:
  assumes "char_to_int c = EOF"
  shows "lex_loop ra t b i (c # f) = Inr t"
  using assms by (simp add: lex_loop.simps [of ra t b i "c # f"] int_to_char_of_char Let_def)

lemma c_string_single: "c_string (b(0 := c, 1 := NUL)) = (if c = NUL then [] else [c])"
proof (cases "c = NUL")
  case True
  have "c_string (b(0 := c, 1 := NUL)) = []"
    by (rule c_string_prefix) (simp_all add: True)
  with True show ?thesis by simp
next
  case False
  have "c_string (b(0 := c, 1 := NUL)) = [c]"
    using False by (intro c_string_prefix) auto
  with False show ?thesis by simp
qed

lemma lex_loop_other:
  assumes "char_to_int c \<noteq> EOF" and "\<not> isspace (char_to_int c)"
    and "\<not> isalpha (char_to_int c)" and "\<not> isdigit (char_to_int c)"
  shows "lex_loop ra t b i (c # f) =
     (if c = CHR ''('' then
        (case add_token ra t L_PARAN ''('' of
           Inl e \<Rightarrow> Inl e | Inr t' \<Rightarrow> lex_loop ra t' b i f)
      else if c = CHR '')'' then
        (case add_token ra t R_PARAN '')'' of
           Inl e \<Rightarrow> Inl e | Inr t' \<Rightarrow> lex_loop ra t' b i f)
      else if c = CHR ''{'' then
        (case add_token ra t L_BRACE ''{'' of
           Inl e \<Rightarrow> Inl e | Inr t' \<Rightarrow> lex_loop ra t' b i f)
      else if c = CHR ''}'' then
        (case add_token ra t R_BRACE ''}'' of
           Inl e \<Rightarrow> Inl e | Inr t' \<Rightarrow> lex_loop ra t' b i f)
      else if c = CHR '';'' then
        (case add_token ra t SEMICOLON '';'' of
           Inl e \<Rightarrow> Inl e | Inr t' \<Rightarrow> lex_loop ra t' b i f)
      else
        (case add_token ra t UNKNOWN (c_string (b(0 := c, 1 := NUL))) of
           Inl e \<Rightarrow> Inl e
         | Inr t' \<Rightarrow> lex_loop ra t' (b(0 := c, 1 := NUL)) i f))"
  using assms
  by (simp add: lex_loop.simps [of ra t b i "c # f"] int_to_char_of_char Let_def)

lemma lex_loop_unknown:
  assumes "char_to_int c \<noteq> EOF" and "\<not> isspace (char_to_int c)"
    and "\<not> isalpha (char_to_int c)" and "\<not> isdigit (char_to_int c)"
    and "c \<notin> set ''(){};''"
  shows "lex_loop ra t b i (c # f) =
     (case add_token ra t UNKNOWN (if c = NUL then [] else [c]) of
        Inl e \<Rightarrow> Inl e
      | Inr t' \<Rightarrow> lex_loop ra t' (b(0 := c, 1 := NUL)) i f)"
proof -
  have "lex_loop ra t b i (c # f) =
     (case add_token ra t UNKNOWN (c_string (b(0 := c, 1 := NUL))) of
        Inl e \<Rightarrow> Inl e
      | Inr t' \<Rightarrow> lex_loop ra t' (b(0 := c, 1 := NUL)) i f)"
    using assms(5) by (simp add: lex_loop_other [OF assms(1-4)])
  then show ?thesis
    by (simp only: c_string_single)
qed

lemma punct_class:
  assumes "c \<in> set ''(){};''"
  shows "char_to_int c \<noteq> EOF" "\<not> isspace (char_to_int c)" "\<not> isalpha (char_to_int c)"
    "\<not> isdigit (char_to_int c)"
  using assms by (auto simp: char_to_int_def EOF_def isspace_def isalpha_def isdigit_def)

lemma lex_loop_punct:
  "lex_loop ra t b i (CHR ''('' # f) =
     (case add_token ra t L_PARAN ''('' of
        Inl e \<Rightarrow> Inl e | Inr t' \<Rightarrow> lex_loop ra t' b i f)"
  "lex_loop ra t b i (CHR '')'' # f) =
     (case add_token ra t R_PARAN '')'' of
        Inl e \<Rightarrow> Inl e | Inr t' \<Rightarrow> lex_loop ra t' b i f)"
  "lex_loop ra t b i (CHR ''{'' # f) =
     (case add_token ra t L_BRACE ''{'' of
        Inl e \<Rightarrow> Inl e | Inr t' \<Rightarrow> lex_loop ra t' b i f)"
  "lex_loop ra t b i (CHR ''}'' # f) =
     (case add_token ra t R_BRACE ''}'' of
        Inl e \<Rightarrow> Inl e | Inr t' \<Rightarrow> lex_loop ra t' b i f)"
  "lex_loop ra t b i (CHR '';'' # f) =
     (case add_token ra t SEMICOLON '';'' of
        Inl e \<Rightarrow> Inl e | Inr t' \<Rightarrow> lex_loop ra t' b i f)"
  by (simp_all add: lex_loop_other punct_class)

subsection \<open>Rules that run the scanner on a given text\<close>

lemmas char_class_defs =
  alnum_char_def digit_char_def isalnum_def isalpha_def isdigit_def isspace_def
  char_to_int_def EOF_def NUL_def

lemmas lex_loop_digit_pushed = lex_loop_digit [unfolded pushback]

lemmas lex_steps =
  lex_loop_Nil lex_loop_alpha lex_loop_digit_pushed lex_loop_space lex_loop_punct
  lex_loop_unknown lex_loop_EOF_char add_token_of_room


subsection \<open>The whole scan\<close>

lemma longest_run_head: "run_at s \<le> longest_run s"
  by (cases s) (simp_all add: run_at_def)

lemma longest_run_tl: "longest_run (tl s) \<le> longest_run s"
  by (cases s) simp_all

lemma longest_run_dropWhile: "longest_run (dropWhile p s) \<le> longest_run s"
  by (induction s) (auto simp: max.coboundedI2)

lemma longest_run_Cons: "longest_run f \<le> longest_run (c # f)"
  by simp

declare longest_run.simps [simp del]

lemma length_tl_dropWhile: "length (tl (dropWhile p f)) \<le> length f"
  by (metis length_dropWhile_le length_tl diff_le_self le_trans)

lemma pushed_cases:
  "(case xs of [] \<Rightarrow> [] | x # ys \<Rightarrow> if P x then ys else x # ys) = xs
   \<or> (case xs of [] \<Rightarrow> [] | x # ys \<Rightarrow> if P x then ys else x # ys) = tl xs"
  by (cases xs) simp_all

lemma lex_loop_step:
  assumes "longest_run (c # f) \<le> 255" and "char_to_int c \<noteq> EOF"
    and "\<not> isspace (char_to_int c)"
  shows "\<exists>ty v b' f'.
           lex_loop ra t b 0 (c # f) =
             (case add_token ra t ty v of
                Inl e \<Rightarrow> Inl e
              | Inr t' \<Rightarrow> lex_loop ra t' b' 0 f')
           \<and> length f' \<le> length f \<and> longest_run f' \<le> longest_run (c # f)"
proof -
  consider (alpha) "isalpha (char_to_int c)" | (digit) "isdigit (char_to_int c)"
    | (other) "\<not> isalpha (char_to_int c)" "\<not> isdigit (char_to_int c)"
    by blast
  then show ?thesis
  proof cases
    case alpha
    let ?r = "takeWhile alnum_char f" and ?f' = "tl (dropWhile alnum_char f)"
    from alpha have "run_at (c # f) = Suc (length ?r)"
      by (simp add: run_at_def)
    then have "Suc (length ?r) \<le> longest_run (c # f)"
      using longest_run_head [of "c # f"] by simp
    with assms(1) have len: "length ?r \<le> 254"
      by linarith
    have f': "length ?f' \<le> length f" "longest_run ?f' \<le> longest_run (c # f)"
      using longest_run_tl [of "dropWhile alnum_char f"] longest_run_dropWhile [of alnum_char f]
        longest_run_Cons [of f c] length_tl_dropWhile [of alnum_char f]
      by linarith+
    have "lex_loop ra t b 0 (c # f) =
        (case add_token ra t
                (if c # ?r = ''int'' then INT_KEYWORD
                 else if c # ?r = ''return'' then RETURN_KEYWORD else IDENTIFIER)
                (if c # ?r = ''int'' then ''int''
                 else if c # ?r = ''return'' then ''return'' else c # ?r) of
           Inl e \<Rightarrow> Inl e
         | Inr t' \<Rightarrow> lex_loop ra t' (clear_buffer b) 0 ?f')"
      using alpha len by (simp add: lex_loop_alpha)
    with f' show ?thesis
      by blast
  next
    case digit
    let ?r = "takeWhile digit_char f"
    let ?f' = "case dropWhile digit_char f of [] \<Rightarrow> []
               | x # xs \<Rightarrow> if char_to_int x = EOF then xs else x # xs"
    from digit have "\<not> isalpha (char_to_int c)"
      by (auto simp: isdigit_def isalpha_def)
    with digit have "run_at (c # f) = Suc (length ?r)"
      by (simp add: run_at_def)
    then have "Suc (length ?r) \<le> longest_run (c # f)"
      using longest_run_head [of "c # f"] by simp
    with assms(1) have len: "length ?r \<le> 254"
      by linarith
    have "?f' = dropWhile digit_char f \<or> ?f' = tl (dropWhile digit_char f)"
      by (rule pushed_cases)
    then have f': "length ?f' \<le> length f" "longest_run ?f' \<le> longest_run (c # f)"
      using longest_run_tl [of "dropWhile digit_char f"] longest_run_dropWhile [of digit_char f]
        length_tl_dropWhile [of digit_char f] length_dropWhile_le [of digit_char f]
        longest_run_Cons [of f c]
      by auto
    have "lex_loop ra t b 0 (c # f) =
        (case add_token ra t INT_LITERAL (c # ?r) of
           Inl e \<Rightarrow> Inl e
         | Inr t' \<Rightarrow> lex_loop ra t' (clear_buffer b) 0 ?f')"
      using digit len by (simp add: lex_loop_digit_pushed)
    with f' show ?thesis
      by blast
  next
    case other
    have f: "length f \<le> length f" "longest_run f \<le> longest_run (c # f)"
      by (simp_all add: longest_run_Cons)
    have "\<exists>ty v b'. lex_loop ra t b 0 (c # f) =
        (case add_token ra t ty v of
           Inl e \<Rightarrow> Inl e
         | Inr t' \<Rightarrow> lex_loop ra t' b' 0 f)"
      unfolding lex_loop_other [OF assms(2,3) other]
      by (simp only: split: if_split) blast
    with f show ?thesis
      by blast
  qed
qed

lemma lex_loop_no_scratch_overflow:
  "longest_run s \<le> 255 \<Longrightarrow> lex_loop ra t b 0 s \<noteq> Inl Scratch_Overflow"
proof (induction "length s" arbitrary: s t b rule: less_induct)
  case less
  show ?case
  proof (cases s)
    case Nil
    then show ?thesis by (simp add: lex_loop_Nil)
  next
    case (Cons c f)
    have f: "longest_run f \<le> 255"
      using less.prems Cons longest_run_Cons [of f c] by simp
    show ?thesis
    proof (cases "char_to_int c = EOF")
      case True
      with Cons show ?thesis by (simp add: lex_loop_EOF_char)
    next
      case False
      show ?thesis
      proof (cases "isspace (char_to_int c)")
        case True
        with Cons f less.hyps [of f t b] show ?thesis
          by (simp add: lex_loop_space)
      next
        case nsp: False
        from lex_loop_step [of c f ra t b] less.prems Cons False nsp
        obtain ty v b' f' where
          eq: "lex_loop ra t b 0 (c # f) =
             (case add_token ra t ty v of
                Inl e \<Rightarrow> Inl e
              | Inr t' \<Rightarrow> lex_loop ra t' b' 0 f')"
          and f': "length f' \<le> length f" "longest_run f' \<le> longest_run (c # f)"
          by auto
        show ?thesis
        proof (cases "add_token ra t ty v")
          case (Inl e)
          with eq Cons add_token_not_scratch [of ra t ty v] show ?thesis
            by simp
        next
          case (Inr t')
          have "lex_loop ra t' b' 0 f' \<noteq> Inl Scratch_Overflow"
            using f' less.prems Cons by (intro less.hyps) simp_all
          with eq Cons Inr show ?thesis
            by simp
        qed
      qed
    qed
  qed
qed

subsection \<open>Runs of a given length\<close>

lemma takeWhile_prefix_length:
  "\<forall>x\<in>set r. P x \<Longrightarrow> length r \<le> length (takeWhile P (r @ rest))"
  by (simp add: takeWhile_append2)

lemma lex_loop_long_alpha_run:
  assumes "isalpha (char_to_int c)" and "\<forall>x\<in>set r. alnum_char x" and "255 \<le> length r"
  shows "lex_loop ra t b 0 (c # r @ rest) = Inl Scratch_Overflow"
  using assms takeWhile_prefix_length [of r alnum_char rest]
  by (simp add: lex_loop_alpha)

lemma lex_loop_long_digit_run:
  assumes "isdigit (char_to_int c)" and "\<forall>x\<in>set r. digit_char x" and "255 \<le> length r"
  shows "lex_loop ra t b 0 (c # r @ rest) = Inl Scratch_Overflow"
  using assms takeWhile_prefix_length [of r digit_char rest]
  by (simp add: lex_loop_digit)

lemma replicate_256: "replicate 256 x = x # replicate 255 x @ []"
proof -
  have "(256::nat) = Suc 255" by simp
  then show ?thesis by (simp only: replicate_Suc append_Nil2)
qed

lemma lex_loop_256_alpha:
  assumes "isalpha (char_to_int c)"
  shows "lex_loop ra t b 0 (replicate 256 c) = Inl Scratch_Overflow"
  unfolding replicate_256
  using assms by (intro lex_loop_long_alpha_run) (simp_all add: alnum_char_def isalnum_def)

lemma lex_loop_256_digits:
  "lex_loop ra t b 0 (replicate 256 (CHR ''7'')) = Inl Scratch_Overflow"
  unfolding replicate_256
  by (rule lex_loop_long_digit_run) (simp_all add: char_class_defs)

lemma run_split:
  assumes "\<forall>x\<in>set r. P x" and "rest = [] \<or> \<not> P (hd rest)"
  shows "takeWhile P (r @ rest) = r" and "dropWhile P (r @ rest) = rest"
proof -
  have "takeWhile P rest = []" "dropWhile P rest = rest"
    using assms(2) by (cases rest; simp)+
  with assms(1) show "takeWhile P (r @ rest) = r" and "dropWhile P (r @ rest) = rest"
    by (simp_all add: takeWhile_append2 dropWhile_append2)
qed

lemma char_to_int_EOF_iff: "char_to_int c = EOF \<longleftrightarrow> c = CHR 0xFF"
proof
  assume "char_to_int c = EOF"
  then have "int_to_char (char_to_int c) = int_to_char (- 1)"
    by (simp add: EOF_def)
  moreover have "int_to_char (- 1) = CHR 0xFF"
    by (simp add: int_to_char_def char_of_def)
  ultimately show "c = CHR 0xFF"
    by (simp add: int_to_char_inverse)
next
  assume "c = CHR 0xFF"
  then show "char_to_int c = EOF"
    by (simp add: char_to_int_def EOF_def)
qed

lemma lex_loop_alpha_run:
  assumes "isalpha (char_to_int c)" and "\<forall>x\<in>set r. isalnum (char_to_int x)"
    and "rest = [] \<or> \<not> isalnum (char_to_int (hd rest))" and "length (c # r) \<le> 255"
  shows "lex_loop ra toks b 0 (c # r @ rest) =
     (case add_token ra toks
             (if c # r = ''int'' then INT_KEYWORD
              else if c # r = ''return'' then RETURN_KEYWORD else IDENTIFIER) (c # r) of
        Inl e \<Rightarrow> Inl e
      | Inr toks' \<Rightarrow> lex_loop ra toks' (clear_buffer b) 0 (tl rest))"
proof -
  have p: "\<forall>x\<in>set r. alnum_char x" "rest = [] \<or> \<not> alnum_char (hd rest)"
    using assms(2,3) by (simp_all add: alnum_char_def)
  have tw: "takeWhile alnum_char (r @ rest) = r" and dw: "dropWhile alnum_char (r @ rest) = rest"
    by (rule run_split(1) [OF p], rule run_split(2) [OF p])
  from assms(4) show ?thesis
    by (simp add: lex_loop_alpha [OF assms(1), of ra toks b "r @ rest", unfolded tw dw])
qed

lemma lex_loop_digit_run:
  assumes "isdigit (char_to_int d)" and "\<forall>x\<in>set ds. isdigit (char_to_int x)"
    and "rest = [] \<or> (\<not> isdigit (char_to_int (hd rest)) \<and> hd rest \<noteq> CHR 0xFF)"
    and "length (d # ds) \<le> 255"
  shows "lex_loop ra toks b 0 (d # ds @ rest) =
     (case add_token ra toks INT_LITERAL (d # ds) of
        Inl e \<Rightarrow> Inl e
      | Inr toks' \<Rightarrow> lex_loop ra toks' (clear_buffer b) 0 rest)"
proof -
  have p: "\<forall>x\<in>set ds. digit_char x" "rest = [] \<or> \<not> digit_char (hd rest)"
    using assms(2,3) by (auto simp: digit_char_def)
  have tw: "takeWhile digit_char (ds @ rest) = ds" and dw: "dropWhile digit_char (ds @ rest) = rest"
    by (rule run_split(1) [OF p], rule run_split(2) [OF p])
  have pb: "(case rest of [] \<Rightarrow> [] | x # xs \<Rightarrow> if char_to_int x = EOF then xs else x # xs) = rest"
    using assms(3) by (cases rest) (simp_all add: char_to_int_EOF_iff)
  from assms(4) show ?thesis
    by (simp add: lex_loop_digit_pushed [OF assms(1), of ra toks b "ds @ rest", unfolded tw dw pb])
qed

subsection \<open>Growth of the token list\<close>

lemma power_index_least:
  fixes c :: nat
  assumes "1 \<le> c" and "i = 0 \<or> c * 2 ^ (i - 1) < k" and "k \<le> c * 2 ^ j"
  shows "i \<le> j"
proof (rule ccontr)
  assume "\<not> i \<le> j"
  then have "j \<le> i - 1" "i \<noteq> 0"
    by simp_all
  then have "c * 2 ^ j \<le> c * 2 ^ (i - 1)"
    by simp
  moreover from assms(2) \<open>i \<noteq> 0\<close> have "c * 2 ^ (i - 1) < k"
    by simp
  ultimately show False
    using assms(3) by linarith
qed

lemma power_index_mono:
  fixes c :: nat
  shows "i \<le> j \<Longrightarrow> c * 2 ^ i \<le> c * 2 ^ j"
  by simp

lemma mk_token_pair: "mk_token (ty, v) = \<lparr>ttype = ty, tvalue = v\<rparr>"
  by (simp add: mk_token_def)

lemma add_tokens_growth:
  assumes "1 \<le> c" and "c * 2 ^ J < 2 ^ 60"
  shows "length ts \<le> c * 2 ^ i \<Longrightarrow> i = 0 \<or> c * 2 ^ (i - 1) < length ts \<Longrightarrow>
         length ts + length xs \<le> c * 2 ^ J \<Longrightarrow>
         (\<exists>j. add_tokens ra (token_list_of ts (c * 2 ^ i)) xs =
                 Inr (token_list_of (ts @ map mk_token xs) (c * 2 ^ j))
            \<and> length ts + length xs \<le> c * 2 ^ j
            \<and> (j = 0 \<or> c * 2 ^ (j - 1) < length ts + length xs) \<and> j \<le> J)
         \<or> (add_tokens ra (token_list_of ts (c * 2 ^ i)) xs = Inl Exit_Failure
            \<and> \<not> (\<forall>n. ra n))"
proof (induction xs arbitrary: ts i)
  case Nil
  from power_index_least [OF assms(1) Nil(2), of J] Nil have "i \<le> J"
    by simp
  with Nil show ?case
    by auto
next
  case (Cons x xs)
  obtain ty v where x: "x = (ty, v)"
    by (cases x)
  let ?tok = "\<lparr>ttype = ty, tvalue = v\<rparr>"
  have iJ: "i \<le> J"
    using power_index_least [OF assms(1) Cons.prems(2), of J] Cons.prems(3) by simp
  then have cap: "c * 2 ^ i < 2 ^ 60"
    using power_index_mono [of i J c] assms(2) by linarith
  show ?case
  proof (cases "length ts < c * 2 ^ i")
    case True
    have step: "add_token ra (token_list_of ts (c * 2 ^ i)) ty v =
        Inr (token_list_of (ts @ [?tok]) (c * 2 ^ i))"
      using True cap by (intro add_token_of_room) simp_all
    have "(\<exists>j. add_tokens ra (token_list_of (ts @ [?tok]) (c * 2 ^ i)) xs =
                 Inr (token_list_of ((ts @ [?tok]) @ map mk_token xs) (c * 2 ^ j))
            \<and> length (ts @ [?tok]) + length xs \<le> c * 2 ^ j
            \<and> (j = 0 \<or> c * 2 ^ (j - 1) < length (ts @ [?tok]) + length xs) \<and> j \<le> J)
         \<or> (add_tokens ra (token_list_of (ts @ [?tok]) (c * 2 ^ i)) xs = Inl Exit_Failure
            \<and> \<not> (\<forall>n. ra n))"
      using True Cons.prems by (intro Cons.IH) auto
    then show ?thesis
      by (simp add: x step mk_token_pair)
  next
    case False
    with Cons.prems(1) have full: "length ts = c * 2 ^ i"
      by simp
    have "Suc i \<le> J"
      using power_index_least [OF assms(1), of "Suc i" "length ts + length (x # xs)" J]
        full Cons.prems(3) by simp
    then have "c * 2 ^ Suc i \<le> c * 2 ^ J"
      by (rule power_index_mono)
    moreover have "c * 2 ^ Suc i = c * 2 ^ i * 2"
      by simp
    ultimately have "c * 2 ^ i * 2 \<le> c * 2 ^ J"
      by (simp only:)
    moreover have "(2::nat) ^ 60 = 2 ^ 59 * 2"
      by simp
    ultimately have small: "c * 2 ^ i < 2 ^ 59"
      using assms(2) by linarith
    have pos: "c * 2 ^ i \<noteq> 0"
      using assms(1) by simp
    let ?bytes = "(sizeof_Token * (c * 2 ^ i * 2)) mod size_t_range"
    have step: "add_token ra (token_list_of ts (c * 2 ^ i)) ty v =
        (if ra ?bytes then Inr (token_list_of (ts @ [?tok]) (c * 2 ^ Suc i))
         else Inl Exit_Failure)"
      using small pos by (simp add: add_token_of_full [OF full cap] mult.commute mult.left_commute)
    show ?thesis
    proof (cases "ra ?bytes")
      case False
      then show ?thesis
        by (auto simp: x step)
    next
      case True
      have "(\<exists>j. add_tokens ra (token_list_of (ts @ [?tok]) (c * 2 ^ Suc i)) xs =
                 Inr (token_list_of ((ts @ [?tok]) @ map mk_token xs) (c * 2 ^ j))
            \<and> length (ts @ [?tok]) + length xs \<le> c * 2 ^ j
            \<and> (j = 0 \<or> c * 2 ^ (j - 1) < length (ts @ [?tok]) + length xs) \<and> j \<le> J)
         \<or> (add_tokens ra (token_list_of (ts @ [?tok]) (c * 2 ^ Suc i)) xs = Inl Exit_Failure
            \<and> \<not> (\<forall>n. ra n))"
        using full pos Cons.prems by (intro Cons.IH) auto
      then show ?thesis
        by (simp add: x step True mk_token_pair)
    qed
  qed
qed

lemma add_token_step_of:
  assumes "length ts \<le> cap" and "1 \<le> cap" and "cap < 2 ^ 60"
    and "add_token ra (token_list_of ts cap) ty v = Inr l'"
  shows "capacity l' = (if length ts = cap then 2 * cap else cap)"
    and "length ts < capacity l'" and "tsize l' = length ts + 1"
    and "length (tokens l') = capacity l'"
proof -
  have "capacity l' = (if length ts = cap then 2 * cap else cap) \<and> length ts < capacity l'
      \<and> tsize l' = length ts + 1 \<and> length (tokens l') = capacity l'"
  proof (cases "length ts = cap")
    case True
    with assms(2,4) add_token_of_full [OF True assms(3), of ra ty v]
    have "l' = token_list_of (ts @ [\<lparr>ttype = ty, tvalue = v\<rparr>]) (cap * 2)"
      by (auto split: if_splits)
    with True assms(2) show ?thesis
      by (simp add: token_list_of_def)
  next
    case False
    with assms(1) have "length ts < cap"
      by simp
    with assms(3,4) add_token_of_room [of ts cap ra ty v]
    have "l' = token_list_of (ts @ [\<lparr>ttype = ty, tvalue = v\<rparr>]) cap"
      by simp
    with False \<open>length ts < cap\<close> show ?thesis
      by (simp add: token_list_of_def)
  qed
  then show "capacity l' = (if length ts = cap then 2 * cap else cap)"
    and "length ts < capacity l'" and "tsize l' = length ts + 1"
    and "length (tokens l') = capacity l'"
    by simp_all
qed

lemma add_tokens_five:
  "add_tokens (\<lambda>n. True) (token_list_of [] 2)
     [(L_PARAN, ''(''), (R_PARAN, '')''), (L_BRACE, ''{''), (R_BRACE, ''}''), (SEMICOLON, '';'')] =
   Inr (token_list_of
     [\<lparr>ttype = L_PARAN, tvalue = ''(''\<rparr>, \<lparr>ttype = R_PARAN, tvalue = '')''\<rparr>,
      \<lparr>ttype = L_BRACE, tvalue = ''{''\<rparr>, \<lparr>ttype = R_BRACE, tvalue = ''}''\<rparr>,
      \<lparr>ttype = SEMICOLON, tvalue = '';''\<rparr>] 8)"
  by (simp add: add_token_of_room add_token_of_full)

lemma list_ok_of: "length ts \<le> cap \<Longrightarrow> 1 \<le> cap \<Longrightarrow> list_ok (token_list_of ts cap)"
  by (simp add: list_ok_def token_list_of_def)

lemma add_token_ok:
  assumes "list_ok l" and "\<forall>n. realloc_ok n" and "tsize l < 2 ^ 59"
  shows "\<exists>l'. add_token realloc_ok l ty v = Inr l' \<and> list_ok l' \<and> tsize l' = tsize l + 1"
proof (cases "tsize l < capacity l")
  case True
  have "(tsize l + 1) mod size_t_range = tsize l + 1"
    using assms(3) by (simp add: size_t_range_def)
  with True assms(1) show ?thesis
    by (simp add: list_ok_def add_token_def grow_def store_token_def)
next
  case False
  with assms(1) have full: "tsize l = capacity l"
    by (simp add: list_ok_def)
  with assms(3) have cap: "capacity l < 2 ^ 59"
    by simp
  then have dbl: "(capacity l * 2) mod size_t_range = capacity l * 2"
    by (simp add: size_t_range_def)
  have "capacity l * 2 < 2 ^ 60"
    using cap by simp
  then have cells: "(sizeof_Token * (capacity l * 2)) mod size_t_range div sizeof_Token = capacity l * 2"
    unfolding block_cells by simp
  have inc: "(tsize l + 1) mod size_t_range = tsize l + 1"
    using assms(3) by (simp add: size_t_range_def)
  have g: "grow realloc_ok l =
      Inr (l\<lparr>capacity := capacity l * 2, tokens := realloc (tokens l) (capacity l * 2)\<rparr>)"
    unfolding grow_def Let_def dbl cells using full assms(2) by simp
  show ?thesis
    unfolding add_token_def g using assms(1) full inc
    by (simp add: store_token_def list_ok_def realloc_def)
qed

lemma lex_loop_total:
  assumes "\<forall>n. ra n"
  shows "longest_run s \<le> 255 \<Longrightarrow> list_ok t \<Longrightarrow> tsize t + length s \<le> 2 ^ 59 \<Longrightarrow>
         \<exists>t'. lex_loop ra t b 0 s = Inr t' \<and> list_ok t'"
proof (induction "length s" arbitrary: s t b rule: less_induct)
  case less
  show ?case
  proof (cases s)
    case Nil
    with less.prems show ?thesis by (simp add: lex_loop_Nil)
  next
    case (Cons c f)
    have f: "longest_run f \<le> 255"
      using less.prems Cons longest_run_Cons [of f c] by simp
    have room: "tsize t + length f < 2 ^ 59"
      using less.prems(3) Cons by simp
    show ?thesis
    proof (cases "char_to_int c = EOF")
      case True
      with Cons less.prems show ?thesis by (simp add: lex_loop_EOF_char)
    next
      case False
      show ?thesis
      proof (cases "isspace (char_to_int c)")
        case True
        have "\<exists>t'. lex_loop ra t b 0 f = Inr t' \<and> list_ok t'"
          using f less.prems(2) room Cons by (intro less.hyps) simp_all
        with True Cons show ?thesis
          by (simp add: lex_loop_space)
      next
        case nsp: False
        from lex_loop_step [of c f ra t b] less.prems Cons False nsp
        obtain ty v b' f' where
          eq: "lex_loop ra t b 0 (c # f) =
             (case add_token ra t ty v of
                Inl e \<Rightarrow> Inl e
              | Inr t' \<Rightarrow> lex_loop ra t' b' 0 f')"
          and f': "length f' \<le> length f" "longest_run f' \<le> longest_run (c # f)"
          by auto
        have "tsize t < 2 ^ 59"
          using room by simp
        from add_token_ok [OF less.prems(2) assms this, of ty v]
        obtain t' where t': "add_token ra t ty v = Inr t'" "list_ok t'" "tsize t' = tsize t + 1"
          by blast
        have "tsize t' + length f' \<le> 2 ^ 59"
          using t'(3) f'(1) room by linarith
        then have "\<exists>t''. lex_loop ra t' b' 0 f' = Inr t'' \<and> list_ok t''"
          using f' less.prems Cons t' by (intro less.hyps) simp_all
        with eq Cons t' show ?thesis
          by simp
      qed
    qed
  qed
qed

subsection \<open>The scanner and the calls of the allocator\<close>

lemma fst_with_log: "fst (with_log lg p) = fst p"
  by (simp add: with_log_def)

lemma fst_create_token_list_log:
  "fst (create_token_list_log malloc_ok c) = create_token_list malloc_ok c"
  by (simp add: create_token_list_log_def create_token_list_def Let_def)

lemma fst_add_token_log: "fst (add_token_log ra l ty v) = add_token ra l ty v"
  by (simp add: add_token_log_def add_token_def grow_log_def grow_def store_token_log_def
      store_token_def with_log_def Let_def)

lemma fst_add_step:
  assumes "\<And>t'. a = Inr t' \<Longrightarrow> fst (g t') = h t'" and "fst p = a"
  shows "fst (case p of (Inl e, lg) \<Rightarrow> (Inl e, lg) | (Inr t', lg) \<Rightarrow> with_log lg (g t')) =
           (case a of Inl e \<Rightarrow> Inl e | Inr t' \<Rightarrow> h t')"
proof (cases p)
  case (Pair x lg)
  with assms(2) have a: "a = x"
    by simp
  show ?thesis
  proof (cases x)
    case (Inl e)
    with Pair a show ?thesis by simp
  next
    case (Inr t')
    with Pair a assms(1) [of t'] show ?thesis by (simp add: with_log_def)
  qed
qed

lemma fst_lex_loop_log: "fst (lex_loop_log ra t b i f) = lex_loop ra t b i f"
proof (induction ra t b i f rule: lex_loop.induct)
  case (1 ra t b i f)
  define c where "c = int_to_char (fst (fgetc f))"
  define f1 where "f1 = snd (fgetc f)"
  note L = lex_loop_log.simps [of ra t b i f, unfolded Let_def, folded c_def f1_def]
  note P = lex_loop.simps [of ra t b i f, unfolded Let_def, folded c_def f1_def]
  note IH = 1 [OF refl refl, folded c_def f1_def]
  show ?case
  proof (cases "char_to_int c = EOF")
    case True
    show ?thesis
      unfolding L P if_P [OF True] by simp
  next
    case c1: False
    show ?thesis
    proof (cases "isspace (char_to_int c)")
      case True
      show ?thesis
        unfolding L P if_not_P [OF c1] if_P [OF True] by (rule IH(1) [OF c1 True])
    next
      case c2: False
      show ?thesis
      proof (cases "isalpha (char_to_int c)")
        case True
        note L' = L [unfolded if_not_P [OF c1] if_not_P [OF c2] if_P [OF True]]
        note P' = P [unfolded if_not_P [OF c1] if_not_P [OF c2] if_P [OF True]]
        show ?thesis
        proof (cases "buffer_store b i c")
          case (Inl e)
          show ?thesis
            unfolding L' P' Inl by simp
        next
          case s1: (Inr b1)
          show ?thesis
          proof (cases "alnum_loop b1 (i + 1) f1")
            case (Inl e)
            show ?thesis
              unfolding L' P' s1 by (simp only: Inl sum.case fst_conv)
          next
            case (Inr q)
            obtain b2 i2 c2 f2 where q: "q = (b2, i2, c2, f2)"
              by (cases q)
            note a1 = Inr [unfolded q]
            show ?thesis
            proof (cases "buffer_store b2 i2 NUL")
              case (Inl e)
              show ?thesis
                unfolding L' P' s1 by (simp only: a1 Inl sum.case prod.case fst_conv)
            next
              case s3: (Inr b3)
              have p: "fst (if c_string b3 = ''int'' then add_token_log ra t INT_KEYWORD ''int''
                     else if c_string b3 = ''return'' then
                       add_token_log ra t RETURN_KEYWORD ''return''
                     else add_token_log ra t IDENTIFIER (c_string b3)) =
                  (if c_string b3 = ''int'' then add_token ra t INT_KEYWORD ''int''
                   else if c_string b3 = ''return'' then add_token ra t RETURN_KEYWORD ''return''
                   else add_token ra t IDENTIFIER (c_string b3))"
                by (simp only: fst_add_token_log if_distrib [of fst])
              show ?thesis
                unfolding L' P' s1
                by (simp only: a1 s3 sum.case prod.case)
                  (rule fst_add_step [OF IH(2) [OF c1 c2 True s1 a1 refl refl refl s3] p])
            qed
          qed
        qed
      next
        case c3: False
        show ?thesis
        proof (cases "isdigit (char_to_int c)")
          case True
          note L' = L [unfolded if_not_P [OF c1] if_not_P [OF c2] if_not_P [OF c3] if_P [OF True]]
          note P' = P [unfolded if_not_P [OF c1] if_not_P [OF c2] if_not_P [OF c3] if_P [OF True]]
          show ?thesis
          proof (cases "buffer_store b i c")
            case (Inl e)
            show ?thesis
              unfolding L' P' Inl by simp
          next
            case s1: (Inr b1)
            show ?thesis
            proof (cases "digit_loop b1 (i + 1) f1")
              case (Inl e)
              show ?thesis
                unfolding L' P' s1 by (simp only: Inl sum.case fst_conv)
            next
              case (Inr q)
              obtain b2 i2 c2 f2 where q: "q = (b2, i2, c2, f2)"
                by (cases q)
              note a1 = Inr [unfolded q]
              show ?thesis
              proof (cases "buffer_store b2 i2 NUL")
                case (Inl e)
                show ?thesis
                  unfolding L' P' s1 by (simp only: a1 Inl sum.case prod.case fst_conv)
              next
                case s3: (Inr b3)
                show ?thesis
                  unfolding L' P' s1
                  by (simp only: a1 s3 sum.case prod.case)
                    (rule fst_add_step [OF IH(3) [OF c1 c2 c3 True s1 a1 refl refl refl s3]
                        fst_add_token_log])
              qed
            qed
          qed
        next
          case c4: False
          note L4 = L [unfolded if_not_P [OF c1] if_not_P [OF c2] if_not_P [OF c3] if_not_P [OF c4]]
          note P4 = P [unfolded if_not_P [OF c1] if_not_P [OF c2] if_not_P [OF c3] if_not_P [OF c4]]
          show ?thesis
          proof (cases "c = CHR ''(''")
            case True
            show ?thesis
              unfolding L4 P4 if_P [OF True]
              by (rule fst_add_step [OF IH(4) [OF c1 c2 c3 c4 True] fst_add_token_log])
          next
            case c5: False
            show ?thesis
            proof (cases "c = CHR '')''")
              case True
              show ?thesis
                unfolding L4 P4 if_not_P [OF c5] if_P [OF True]
                by (rule fst_add_step [OF IH(5) [OF c1 c2 c3 c4 c5 True] fst_add_token_log])
            next
              case c6: False
              show ?thesis
              proof (cases "c = CHR ''{''")
                case True
                show ?thesis
                  unfolding L4 P4 if_not_P [OF c5] if_not_P [OF c6] if_P [OF True]
                  by (rule fst_add_step [OF IH(6) [OF c1 c2 c3 c4 c5 c6 True] fst_add_token_log])
              next
                case c7: False
                show ?thesis
                proof (cases "c = CHR ''}''")
                  case True
                  show ?thesis
                    unfolding L4 P4 if_not_P [OF c5] if_not_P [OF c6] if_not_P [OF c7] if_P [OF True]
                    by (rule fst_add_step [OF IH(7) [OF c1 c2 c3 c4 c5 c6 c7 True]
                          fst_add_token_log])
                next
                  case c8: False
                  show ?thesis
                  proof (cases "c = CHR '';''")
                    case True
                    show ?thesis
                      unfolding L4 P4 if_not_P [OF c5] if_not_P [OF c6] if_not_P [OF c7]
                        if_not_P [OF c8] if_P [OF True]
                      by (rule fst_add_step [OF IH(8) [OF c1 c2 c3 c4 c5 c6 c7 c8 True]
                            fst_add_token_log])
                  next
                    case c9: False
                    show ?thesis
                      unfolding L4 P4 if_not_P [OF c5] if_not_P [OF c6] if_not_P [OF c7]
                        if_not_P [OF c8] if_not_P [OF c9]
                      by (rule fst_add_step [OF IH(9) [OF c1 c2 c3 c4 c5 c6 c7 c8 c9]
                            fst_add_token_log])
                  qed
                qed
              qed
            qed
          qed
        qed
      qed
    qed
  qed
qed

lemma lex_loop_log_Nil: "lex_loop_log ra t b i [] = (Inr t, [])"
  by (simp add: lex_loop_log.simps [of ra t b i "[]"] int_to_char_m1 EOF_def Let_def)

lemma add_token_log_of_room:
  assumes "length ts < cap" and "cap < 2 ^ 64"
  shows "add_token_log realloc_ok (token_list_of ts cap) ty v =
           (Inr (token_list_of (ts @ [\<lparr>ttype = ty, tvalue = v\<rparr>]) cap), [Strdup v])"
proof -
  have g: "grow_log realloc_ok (token_list_of ts cap) = (Inr (token_list_of ts cap), [])"
    using assms(1) by (simp add: grow_log_def token_list_of_def)
  have "fst (add_token_log realloc_ok (token_list_of ts cap) ty v) =
      Inr (token_list_of (ts @ [\<lparr>ttype = ty, tvalue = v\<rparr>]) cap)"
    unfolding fst_add_token_log using assms by (rule add_token_of_room)
  moreover have "snd (add_token_log realloc_ok (token_list_of ts cap) ty v) = [Strdup v]"
    unfolding add_token_log_def g using assms(1)
    by (simp add: with_log_def store_token_log_def token_list_of_def)
  ultimately show ?thesis
    by (simp add: prod_eq_iff)
qed

lemma add_token_log_of_full_NULL:
  assumes "length ts = cap" and "cap < 2 ^ 59"
  shows "add_token_log (\<lambda>n. False) (token_list_of ts cap) ty v =
           (Inl Exit_Failure, [Realloc (sizeof_Token * (cap * 2))])"
proof -
  have dbl: "(cap * 2) mod size_t_range = cap * 2"
    using assms(2) by (simp add: size_t_range_def)
  have bytes: "(sizeof_Token * (cap * 2)) mod size_t_range = sizeof_Token * (cap * 2)"
    using assms(2) by (simp add: size_t_range_def sizeof_Token_def)
  have t: "tsize (token_list_of ts cap) = cap" "capacity (token_list_of ts cap) = cap"
    using assms(1) by (simp_all add: token_list_of_def)
  show ?thesis
    unfolding add_token_log_def grow_log_def Let_def t dbl bytes by simp
qed

lemma lex_loop_log_other:
  assumes "char_to_int c \<noteq> EOF" and "\<not> isspace (char_to_int c)"
    and "\<not> isalpha (char_to_int c)" and "\<not> isdigit (char_to_int c)"
  shows "lex_loop_log ra t b i (c # f) =
     (if c = CHR ''('' then
        (case add_token_log ra t L_PARAN ''('' of
           (Inl e, lg) \<Rightarrow> (Inl e, lg)
         | (Inr t', lg) \<Rightarrow> with_log lg (lex_loop_log ra t' b i f))
      else if c = CHR '')'' then
        (case add_token_log ra t R_PARAN '')'' of
           (Inl e, lg) \<Rightarrow> (Inl e, lg)
         | (Inr t', lg) \<Rightarrow> with_log lg (lex_loop_log ra t' b i f))
      else if c = CHR ''{'' then
        (case add_token_log ra t L_BRACE ''{'' of
           (Inl e, lg) \<Rightarrow> (Inl e, lg)
         | (Inr t', lg) \<Rightarrow> with_log lg (lex_loop_log ra t' b i f))
      else if c = CHR ''}'' then
        (case add_token_log ra t R_BRACE ''}'' of
           (Inl e, lg) \<Rightarrow> (Inl e, lg)
         | (Inr t', lg) \<Rightarrow> with_log lg (lex_loop_log ra t' b i f))
      else if c = CHR '';'' then
        (case add_token_log ra t SEMICOLON '';'' of
           (Inl e, lg) \<Rightarrow> (Inl e, lg)
         | (Inr t', lg) \<Rightarrow> with_log lg (lex_loop_log ra t' b i f))
      else
        (case add_token_log ra t UNKNOWN (c_string (b(0 := c, 1 := NUL))) of
           (Inl e, lg) \<Rightarrow> (Inl e, lg)
         | (Inr t', lg) \<Rightarrow> with_log lg (lex_loop_log ra t' (b(0 := c, 1 := NUL)) i f)))"
  using assms
  by (simp add: lex_loop_log.simps [of ra t b i "c # f"] int_to_char_of_char Let_def)

lemma lex_loop_log_punct:
  "lex_loop_log ra t b i (CHR ''('' # f) =
     (case add_token_log ra t L_PARAN ''('' of
        (Inl e, lg) \<Rightarrow> (Inl e, lg)
      | (Inr t', lg) \<Rightarrow> with_log lg (lex_loop_log ra t' b i f))"
  "lex_loop_log ra t b i (CHR '')'' # f) =
     (case add_token_log ra t R_PARAN '')'' of
        (Inl e, lg) \<Rightarrow> (Inl e, lg)
      | (Inr t', lg) \<Rightarrow> with_log lg (lex_loop_log ra t' b i f))"
  by (simp_all add: lex_loop_log_other punct_class)

lemma create_token_list_log_10:
  assumes "malloc_ok sizeof_TokenList" and "malloc_ok (sizeof_Token * 10)"
  shows "create_token_list_log malloc_ok 10 =
           (Inr (token_list_of [] 10), [Malloc sizeof_TokenList, Malloc (sizeof_Token * 10)])"
  using assms
  by (simp add: create_token_list_log_def token_list_of_def sizeof_Token_def size_t_range_def)

lemma create_token_list_log_head:
  "\<exists>rest. snd (create_token_list_log malloc_ok c) = Malloc sizeof_TokenList # rest"
  by (simp add: create_token_list_log_def Let_def)

lemma lex_log_open:
  assumes "fs filename = Some s"
  shows "lex_log malloc_ok realloc_ok fs garbage filename =
     (case create_token_list_log malloc_ok 10 of
        (Inl e, lg) \<Rightarrow> (Inl e, lg)
      | (Inr toks, lg) \<Rightarrow>
          with_log lg
            (case lex_loop_log realloc_ok toks garbage 0 s of
               (Inl e, lg') \<Rightarrow> (Inl e, lg')
             | (Inr toks', lg') \<Rightarrow> (Inr (Some toks'), lg')))"
  using assms by (simp add: lex_log_def)

lemma lex_log_not_NULL:
  assumes "fs filename = Some s"
  shows "fst (lex_log malloc_ok realloc_ok fs garbage filename) \<noteq> Inr None"
  unfolding lex_log_open [of fs filename, OF assms]
  by (simp add: with_log_def split: prod.splits sum.splits)

lemma lex_log_head:
  assumes "fs filename = Some s"
  shows "\<exists>rest. snd (lex_log malloc_ok realloc_ok fs garbage filename) = Malloc sizeof_TokenList # rest"
proof -
  obtain r lg where c: "create_token_list_log malloc_ok 10 = (r, lg)"
    by (cases "create_token_list_log malloc_ok 10")
  with create_token_list_log_head [of malloc_ok 10]
  obtain rest where lg: "lg = Malloc sizeof_TokenList # rest"
    by auto
  show ?thesis
    unfolding lex_log_open [of fs filename, OF assms] c
    by (cases r) (simp_all add: with_log_def lg)
qed

lemma fst_lex_log:
  assumes "malloc_ok sizeof_TokenList" and "malloc_ok (sizeof_Token * 10)"
  shows "fst (lex_log malloc_ok realloc_ok fs garbage filename) = lex realloc_ok fs garbage filename"
proof (cases "fs filename")
  case None
  then show ?thesis
    by (simp add: lex_log_def lex_def)
next
  case (Some s)
  obtain r lg where l: "lex_loop_log realloc_ok (token_list_of [] 10) garbage 0 s = (r, lg)"
    by (cases "lex_loop_log realloc_ok (token_list_of [] 10) garbage 0 s")
  with fst_lex_loop_log [of realloc_ok "token_list_of [] 10" garbage 0 s]
  have p: "lex_loop realloc_ok (token_list_of [] 10) garbage 0 s = r"
    by simp
  show ?thesis
    unfolding lex_log_open [of fs filename, OF Some] create_token_list_log_10 [OF assms]
    by (cases r) (simp_all add: lex_def Some create_token_list_10 p l with_log_def)
qed

lemma lex_log_total:
  assumes "fs filename = Some s" and "malloc_ok sizeof_TokenList"
    and "malloc_ok (sizeof_Token * 10)" and "\<forall>n. realloc_ok n"
    and "longest_run s \<le> 255" and "length s \<le> 2 ^ 59"
  shows "\<exists>toks rest. lex_log malloc_ok realloc_ok fs garbage filename =
           (Inr (Some toks), Malloc sizeof_TokenList # Malloc (sizeof_Token * 10) # rest)"
proof -
  have ok: "list_ok (token_list_of [] 10)"
    by (simp add: list_ok_of)
  have "tsize (token_list_of [] 10) + length s \<le> 2 ^ 59"
    using assms(6) by (simp add: token_list_of_def)
  from lex_loop_total [OF assms(4,5) ok this, of garbage]
  obtain t' where t': "lex_loop realloc_ok (token_list_of [] 10) garbage 0 s = Inr t'"
    by blast
  obtain r lg where l: "lex_loop_log realloc_ok (token_list_of [] 10) garbage 0 s = (r, lg)"
    by (cases "lex_loop_log realloc_ok (token_list_of [] 10) garbage 0 s")
  with fst_lex_loop_log [of realloc_ok "token_list_of [] 10" garbage 0 s] t'
  have r: "r = Inr t'"
    by simp
  show ?thesis
    unfolding lex_log_open [of fs filename, OF assms(1)] create_token_list_log_10 [OF assms(2,3)]
    by (simp add: l r with_log_def)
qed

section \<open>The claims\<close>

text \<open>
  C1 (the code departs from the claim). The claim: the character that ends an alphabetic
  run stays in the stream, so the next scan step turns it into a token of its own. In
  \<open>lex\<close> the \<^verbatim>\<open>ungetc\<close> of the alphabetic branch is commented out, while the digit
  branch has it: on the file \<^verbatim>\<open>a(\<close> the scan returns the single token
  \<open>IDENTIFIER "a"\<close>, and the parenthesis that ended the run is in no token.
\<close>

theorem lex_drops_char_after_alphabetic_run:
  "\<exists>toks. lex realloc_ok [''a.c'' \<mapsto> ''a(''] garbage ''a.c'' = Inr (Some toks)
      \<and> token_seq toks = [\<lparr>ttype = IDENTIFIER, tvalue = ''a''\<rparr>]"
  by (simp add: lex_def create_token_list_10 lex_steps char_class_defs token_seq_of)

text \<open>
  C2 (the code departs from the claim). The claim: lexing \<^verbatim>\<open>int main() { return 0; }\<close>
  gives the nine tokens INT_KEYWORD, IDENTIFIER "main", L_PARAN, R_PARAN, L_BRACE,
  RETURN_KEYWORD, INT_LITERAL "0", SEMICOLON, R_BRACE. The scan returns eight tokens:
  the \<^verbatim>\<open>(\<close> that ends the run \<^verbatim>\<open>main\<close> is read by the inner loop and never pushed
  back, so there is no L_PARAN.
\<close>

theorem lex_int_main_no_L_PARAN:
  "\<exists>toks. lex realloc_ok [''main.c'' \<mapsto> ''int main() { return 0; }''] garbage ''main.c'' =
        Inr (Some toks)
      \<and> token_seq toks =
         [\<lparr>ttype = INT_KEYWORD, tvalue = ''int''\<rparr>,
          \<lparr>ttype = IDENTIFIER, tvalue = ''main''\<rparr>,
          \<lparr>ttype = R_PARAN, tvalue = '')''\<rparr>,
          \<lparr>ttype = L_BRACE, tvalue = ''{''\<rparr>,
          \<lparr>ttype = RETURN_KEYWORD, tvalue = ''return''\<rparr>,
          \<lparr>ttype = INT_LITERAL, tvalue = ''0''\<rparr>,
          \<lparr>ttype = SEMICOLON, tvalue = '';''\<rparr>,
          \<lparr>ttype = R_BRACE, tvalue = ''}''\<rparr>]"
  by (simp add: lex_def create_token_list_10 lex_steps char_class_defs token_seq_of)

text \<open>
  C3 (amended). As stated, for every maximal digit run, the claim fails on three inputs:
  a run of 256 digits overruns the scratch buffer; after \<^verbatim>\<open>1\<close> the byte 0xFF, which as
  a \<^verbatim>\<open>char\<close> equals \<open>EOF\<close>, is not pushed back (\<open>ungetc\<close> ignores \<open>EOF\<close>), so the scan
  goes on with the \<^verbatim>\<open>2\<close> behind it; and the digits of \<^verbatim>\<open>x12\<close> belong to an identifier.
\<close>

theorem digit_run_counterexample:
  "lex (\<lambda>n. True) [''n.c'' \<mapsto> replicate 256 (CHR ''7'')] (\<lambda>i. NUL) ''n.c'' =
     Inl Scratch_Overflow
   \<and> (\<exists>toks. lex (\<lambda>n. True) [''m.c'' \<mapsto> [CHR ''1'', CHR 0xFF, CHR ''2'']] (\<lambda>i. NUL) ''m.c'' =
          Inr (Some toks)
        \<and> token_seq toks =
            [\<lparr>ttype = INT_LITERAL, tvalue = ''1''\<rparr>, \<lparr>ttype = INT_LITERAL, tvalue = ''2''\<rparr>])
   \<and> (\<exists>toks. lex (\<lambda>n. True) [''x.c'' \<mapsto> ''x12''] (\<lambda>i. NUL) ''x.c'' = Inr (Some toks)
        \<and> token_seq toks = [\<lparr>ttype = IDENTIFIER, tvalue = ''x12''\<rparr>])"
  by (simp add: lex_def create_token_list_10 lex_loop_256_digits)
     (simp add: create_token_list_10 lex_steps char_class_defs token_seq_of)

text \<open>
  C3, the amended claim. When a scan step starts on a digit run of at most 255 characters
  that is ended by the end of the file or by a character that is neither a digit nor the
  byte 0xFF, the step appends exactly one INT_LITERAL token whose text is the whole run,
  and the scan goes on with the stream that starts at the character that ended the run;
  so a file that holds the run and a semicolon gives the two tokens INT_LITERAL and
  SEMICOLON.
\<close>

theorem digit_run_one_token:
  assumes "isdigit (char_to_int d)" and "\<forall>x\<in>set ds. isdigit (char_to_int x)"
    and "rest = [] \<or> (\<not> isdigit (char_to_int (hd rest)) \<and> hd rest \<noteq> CHR 0xFF)"
    and "length (d # ds) \<le> 255"
  shows "lex_loop realloc_ok toks buffer 0 (d # ds @ rest) =
           (case add_token realloc_ok toks INT_LITERAL (d # ds) of
              Inl e \<Rightarrow> Inl e
            | Inr toks' \<Rightarrow> lex_loop realloc_ok toks' (clear_buffer buffer) 0 rest)
       \<and> (fs filename = Some (d # ds @ '';'') \<longrightarrow>
            (\<exists>toks. lex realloc_ok fs garbage filename = Inr (Some toks)
               \<and> token_seq toks =
                   [\<lparr>ttype = INT_LITERAL, tvalue = d # ds\<rparr>,
                    \<lparr>ttype = SEMICOLON, tvalue = '';''\<rparr>]))"
proof (intro conjI impI)
  show "lex_loop realloc_ok toks buffer 0 (d # ds @ rest) =
           (case add_token realloc_ok toks INT_LITERAL (d # ds) of
              Inl e \<Rightarrow> Inl e
            | Inr toks' \<Rightarrow> lex_loop realloc_ok toks' (clear_buffer buffer) 0 rest)"
    using assms by (rule lex_loop_digit_run)
next
  assume f: "fs filename = Some (d # ds @ '';'')"
  have semi: "'';'' = [] \<or> (\<not> isdigit (char_to_int (hd '';'')) \<and> hd '';'' \<noteq> CHR 0xFF)"
    by (simp add: isdigit_def char_to_int_def)
  have "lex_loop realloc_ok (token_list_of [] 10) garbage 0 (d # ds @ '';'') =
      Inr (token_list_of
             [\<lparr>ttype = INT_LITERAL, tvalue = d # ds\<rparr>, \<lparr>ttype = SEMICOLON, tvalue = '';''\<rparr>] 10)"
    by (subst lex_loop_digit_run [OF assms(1,2) semi assms(4)])
       (simp add: add_token_of_room lex_loop_Nil lex_loop_punct)
  with f show "\<exists>toks. lex realloc_ok fs garbage filename = Inr (Some toks)
               \<and> token_seq toks =
                   [\<lparr>ttype = INT_LITERAL, tvalue = d # ds\<rparr>,
                    \<lparr>ttype = SEMICOLON, tvalue = '';''\<rparr>]"
    by (simp add: lex_def create_token_list_10 token_seq_of)
qed

theorem digit_run_one_token_witness:
  "\<exists>toks. lex (\<lambda>n. False) [''n.c'' \<mapsto> ''2024;''] (\<lambda>i. NUL) ''n.c'' = Inr (Some toks)
      \<and> token_seq toks =
          [\<lparr>ttype = INT_LITERAL, tvalue = ''2024''\<rparr>, \<lparr>ttype = SEMICOLON, tvalue = '';''\<rparr>]"
  using
    digit_run_one_token [where d = "CHR ''2''" and ds = "''024''" and rest = "'';''"
      and fs = "[''n.c'' \<mapsto> ''2024;'']" and filename = "''n.c''"
      and realloc_ok = "\<lambda>n. False" and garbage = "\<lambda>i. NUL"]
  by (simp add: isdigit_def char_to_int_def)

text \<open>
  C4 (amended). As stated, for every initial capacity \<open>c \<ge> 1\<close>, the claim fails.
  \<open>create_token_list\<close> computes its request \<^verbatim>\<open>sizeof(Token) * init_capacity\<close> in
  \<^verbatim>\<open>size_t\<close> and tests nothing: for \<open>c = 2 ^ 60\<close> the request wraps to 0 bytes, the list
  has capacity \<open>2 ^ 60\<close> and no cell, and the first append, which finds \<open>0 < 2 ^ 60\<close> and
  so does not grow the storage, stores outside the block.
\<close>

theorem token_list_growth_counterexample:
  "\<exists>l0. create_token_list (\<lambda>bytes. True) (2 ^ 60) = Inr l0
      \<and> capacity l0 = 2 ^ 60 \<and> tsize l0 = 0 \<and> tokens l0 = []
      \<and> add_token (\<lambda>bytes. True) l0 SEMICOLON '';'' = Inl Token_Overflow"
  by (simp add: create_token_list_def sizeof_TokenList_def sizeof_Token_def size_t_range_def
      add_token_def grow_def store_token_def)

text \<open>
  C4, the amended claim. Let a list be created with capacity \<open>c \<ge> 1\<close>, both \<^verbatim>\<open>malloc\<close>
  of \<open>create_token_list\<close> returning a block, and let \<open>xs\<close> be appended, where some
  \<open>c * 2 ^ J\<close> below \<open>2 ^ 60\<close> is at least \<open>length xs\<close> (so that no size wraps). The list
  starts empty with \<open>c\<close> cells. The appends succeed when every \<^verbatim>\<open>realloc\<close> returns a
  block; after them the list holds \<open>length xs\<close> tokens, in order, in as many cells as its
  capacity says, with \<open>tsize \<le> capacity\<close>; the capacity is \<open>c * 2 ^ i\<close> for the least \<open>i\<close>
  with \<open>length xs \<le> c * 2 ^ i\<close>, which is \<open>c\<close> when \<open>length xs \<le> c\<close>; and one more append
  doubles the capacity exactly when it finds \<open>tsize = capacity\<close>, the cell it writes lying
  inside the doubled capacity. The statement holds for every such \<open>xs\<close>, hence after each
  append of a longer run.
\<close>

theorem token_list_growth:
  assumes "1 \<le> c" and "malloc_ok sizeof_TokenList" and "malloc_ok (sizeof_Token * c)"
    and "length xs \<le> c * 2 ^ J" and "c * 2 ^ J < 2 ^ 60"
  shows "\<exists>l0. create_token_list malloc_ok c = Inr l0
       \<and> tsize l0 = 0 \<and> capacity l0 = c \<and> length (tokens l0) = c
       \<and> ((\<forall>n. realloc_ok n) \<longrightarrow> (\<exists>l. add_tokens realloc_ok l0 xs = Inr l))
       \<and> (\<forall>l. add_tokens realloc_ok l0 xs = Inr l \<longrightarrow>
             tsize l = length xs \<and> tsize l \<le> capacity l \<and> length (tokens l) = capacity l
           \<and> token_seq l = map mk_token xs
           \<and> (\<exists>i. capacity l = c * 2 ^ i \<and> (\<forall>j. length xs \<le> c * 2 ^ j \<longrightarrow> i \<le> j))
           \<and> (length xs \<le> c \<longrightarrow> capacity l = c)
           \<and> (\<forall>ty v l'. add_token realloc_ok l ty v = Inr l' \<longrightarrow>
                 capacity l' = (if tsize l = capacity l then 2 * capacity l else capacity l)
               \<and> tsize l < capacity l' \<and> tsize l' = tsize l + 1
               \<and> length (tokens l') = capacity l'))"
proof -
  have c60: "c < 2 ^ 60"
  proof -
    have "c * 1 \<le> c * 2 ^ J"
      by (rule mult_le_mono2) simp
    with assms(5) show ?thesis by linarith
  qed
  have create: "create_token_list malloc_ok c = Inr (token_list_of [] c)"
    using assms(2,3) c60 by (rule create_token_list_of)
  from add_tokens_growth [OF assms(1,5), of "[]" 0 xs realloc_ok] assms(4)
  consider (ok) j where
      "add_tokens realloc_ok (token_list_of [] c) xs = Inr (token_list_of (map mk_token xs) (c * 2 ^ j))"
      "length xs \<le> c * 2 ^ j" "j = 0 \<or> c * 2 ^ (j - 1) < length xs" "j \<le> J"
    | (exit) "add_tokens realloc_ok (token_list_of [] c) xs = Inl Exit_Failure"
      "\<not> (\<forall>n. realloc_ok n)"
    by auto
  then have run: "((\<forall>n. realloc_ok n) \<longrightarrow> (\<exists>l. add_tokens realloc_ok (token_list_of [] c) xs = Inr l))
       \<and> (\<forall>l. add_tokens realloc_ok (token_list_of [] c) xs = Inr l \<longrightarrow>
             tsize l = length xs \<and> tsize l \<le> capacity l \<and> length (tokens l) = capacity l
           \<and> token_seq l = map mk_token xs
           \<and> (\<exists>i. capacity l = c * 2 ^ i \<and> (\<forall>j. length xs \<le> c * 2 ^ j \<longrightarrow> i \<le> j))
           \<and> (length xs \<le> c \<longrightarrow> capacity l = c)
           \<and> (\<forall>ty v l'. add_token realloc_ok l ty v = Inr l' \<longrightarrow>
                 capacity l' = (if tsize l = capacity l then 2 * capacity l else capacity l)
               \<and> tsize l < capacity l' \<and> tsize l' = tsize l + 1
               \<and> length (tokens l') = capacity l'))"
  proof cases
    case exit
    then show ?thesis by simp
  next
    case ok
    let ?l = "token_list_of (map mk_token xs) (c * 2 ^ j)"
    have least: "\<And>k. length xs \<le> c * 2 ^ k \<Longrightarrow> j \<le> k"
      using assms(1) ok(3) by (rule power_index_least)
    have "c * 2 ^ j \<le> c * 2 ^ J"
      using ok(4) by (rule power_index_mono)
    with assms(5) have cap1: "c * 2 ^ j < 2 ^ 60"
      by linarith
    have cap2: "1 \<le> c * 2 ^ j"
      using assms(1) by simp
    note cap = cap1 cap2
    have fields: "tsize ?l = length xs" "capacity ?l = c * 2 ^ j"
      "length (tokens ?l) = c * 2 ^ j"
      using ok(2) by (simp_all add: token_list_of_def)
    have small: "length xs \<le> c \<longrightarrow> capacity ?l = c"
    proof
      assume "length xs \<le> c"
      then have "j \<le> 0"
        using least [of 0] by simp
      then show "capacity ?l = c"
        by (simp add: token_list_of_def)
    qed
    have step: "\<forall>ty v l'. add_token realloc_ok ?l ty v = Inr l' \<longrightarrow>
                 capacity l' = (if tsize ?l = capacity ?l then 2 * capacity ?l else capacity ?l)
               \<and> tsize ?l < capacity l' \<and> tsize l' = tsize ?l + 1
               \<and> length (tokens l') = capacity l'"
    proof (intro allI impI)
      fix ty v l'
      assume a: "add_token realloc_ok ?l ty v = Inr l'"
      have len: "length (map mk_token xs) \<le> c * 2 ^ j"
        using ok(2) by simp
      from add_token_step_of [OF len cap(2) cap(1) a]
      show "capacity l' = (if tsize ?l = capacity ?l then 2 * capacity ?l else capacity ?l)
               \<and> tsize ?l < capacity l' \<and> tsize l' = tsize ?l + 1
               \<and> length (tokens l') = capacity l'"
        by (simp add: fields)
    qed
    have ex: "\<exists>i. capacity ?l = c * 2 ^ i \<and> (\<forall>k. length xs \<le> c * 2 ^ k \<longrightarrow> i \<le> k)"
      using least by (intro exI [of _ j]) (simp add: fields)
    have seq: "token_seq ?l = map mk_token xs"
      by (rule token_seq_of)
    have le: "tsize ?l \<le> capacity ?l"
      using ok(2) by (simp add: fields)
    note props = conjI [OF fields(1) conjI [OF le conjI [OF trans [OF fields(3) fields(2) [symmetric]]
      conjI [OF seq conjI [OF ex conjI [OF small step]]]]]]
    show ?thesis
      unfolding ok(1)
      apply (rule conjI)
       apply blast
      apply (rule allI)
      apply (rule impI)
      apply (drule sum.inject [THEN iffD1])
      apply hypsubst
      apply (rule props)
      done
  qed
  have init: "tsize (token_list_of [] c) = 0" "capacity (token_list_of [] c) = c"
    "length (tokens (token_list_of [] c)) = c"
    by (simp_all add: token_list_of_def)
  show ?thesis
    unfolding create
    apply (rule exI [of _ "token_list_of [] c"])
    apply (rule conjI [OF refl conjI [OF init(1) conjI [OF init(2) conjI [OF init(3) run]]]])
    done
qed

theorem token_list_growth_witness:
  "\<exists>l0 l. create_token_list (\<lambda>bytes. True) 2 = Inr l0
      \<and> add_tokens (\<lambda>n. True) l0
          [(L_PARAN, ''(''), (R_PARAN, '')''), (L_BRACE, ''{''), (R_BRACE, ''}''),
           (SEMICOLON, '';'')] = Inr l
      \<and> tsize l = 5 \<and> capacity l = 8 \<and> tsize l \<le> capacity l \<and> length (tokens l) = capacity l
      \<and> token_seq l =
          [\<lparr>ttype = L_PARAN, tvalue = ''(''\<rparr>, \<lparr>ttype = R_PARAN, tvalue = '')''\<rparr>,
           \<lparr>ttype = L_BRACE, tvalue = ''{''\<rparr>, \<lparr>ttype = R_BRACE, tvalue = ''}''\<rparr>,
           \<lparr>ttype = SEMICOLON, tvalue = '';''\<rparr>]"
proof -
  have c: "create_token_list (\<lambda>bytes. True) 2 = Inr (token_list_of [] 2)"
    by (rule create_token_list_of) simp_all
  from token_list_growth [of 2 "\<lambda>bytes. True"
      "[(L_PARAN, ''(''), (R_PARAN, '')''), (L_BRACE, ''{''), (R_BRACE, ''}''), (SEMICOLON, '';'')]"
      2 "\<lambda>n. True"]
  show ?thesis
    unfolding c
    by (simp del: add_tokens.simps add: add_tokens_five mk_token_pair token_seq_of)
      (simp add: token_list_of_def)
qed

text \<open>
  C5 (amended). As stated, for every alphabetic run, the claim fails on a run of 256
  letters: the scan overruns the scratch buffer and returns no IDENTIFIER token.
\<close>

theorem keyword_classification_counterexample:
  "lex (\<lambda>n. True) [''x.c'' \<mapsto> replicate 256 (CHR ''x'')] (\<lambda>i. NUL) ''x.c'' =
     Inl Scratch_Overflow"
  by (simp add: lex_def create_token_list_10 lex_loop_256_alpha char_class_defs)

text \<open>
  C5, the amended claim. When a scan step starts on an alphabetic run (a letter, then
  letters and digits) of at most 255 characters, it appends exactly one token whose text
  is the whole run: INT_KEYWORD when the run is \<^verbatim>\<open>int\<close>, RETURN_KEYWORD when it is
  \<^verbatim>\<open>return\<close>, IDENTIFIER otherwise; a file that holds only the run gives that one
  token. The witness runs \<^verbatim>\<open>int\<close>, \<^verbatim>\<open>return\<close>, \<^verbatim>\<open>int2\<close>, \<^verbatim>\<open>Int\<close> and
  \<^verbatim>\<open>integer\<close>.
\<close>

theorem keyword_classification:
  assumes "isalpha (char_to_int c)" and "\<forall>x\<in>set r. isalnum (char_to_int x)"
    and "rest = [] \<or> \<not> isalnum (char_to_int (hd rest))" and "length (c # r) \<le> 255"
  shows "lex_loop realloc_ok toks buffer 0 (c # r @ rest) =
           (case add_token realloc_ok toks
                   (if c # r = ''int'' then INT_KEYWORD
                    else if c # r = ''return'' then RETURN_KEYWORD else IDENTIFIER) (c # r) of
              Inl e \<Rightarrow> Inl e
            | Inr toks' \<Rightarrow> lex_loop realloc_ok toks' (clear_buffer buffer) 0 (tl rest))
       \<and> (fs filename = Some (c # r) \<longrightarrow>
            (\<exists>toks. lex realloc_ok fs garbage filename = Inr (Some toks)
               \<and> token_seq toks =
                   [\<lparr>ttype = (if c # r = ''int'' then INT_KEYWORD
                               else if c # r = ''return'' then RETURN_KEYWORD else IDENTIFIER),
                     tvalue = c # r\<rparr>]))"
proof (intro conjI impI)
  show "lex_loop realloc_ok toks buffer 0 (c # r @ rest) =
           (case add_token realloc_ok toks
                   (if c # r = ''int'' then INT_KEYWORD
                    else if c # r = ''return'' then RETURN_KEYWORD else IDENTIFIER) (c # r) of
              Inl e \<Rightarrow> Inl e
            | Inr toks' \<Rightarrow> lex_loop realloc_ok toks' (clear_buffer buffer) 0 (tl rest))"
    using assms by (rule lex_loop_alpha_run)
next
  assume f: "fs filename = Some (c # r)"
  have "lex_loop realloc_ok (token_list_of [] 10) garbage 0 (c # r @ []) =
      Inr (token_list_of
             [\<lparr>ttype = (if c # r = ''int'' then INT_KEYWORD
                         else if c # r = ''return'' then RETURN_KEYWORD else IDENTIFIER),
               tvalue = c # r\<rparr>] 10)"
    using assms(1,2,4)
    by (subst lex_loop_alpha_run) (simp_all add: add_token_of_room lex_loop_Nil)
  with f show "\<exists>toks. lex realloc_ok fs garbage filename = Inr (Some toks)
               \<and> token_seq toks =
                   [\<lparr>ttype = (if c # r = ''int'' then INT_KEYWORD
                               else if c # r = ''return'' then RETURN_KEYWORD else IDENTIFIER),
                     tvalue = c # r\<rparr>]"
    by (simp add: lex_def create_token_list_10 token_seq_of)
qed

theorem keyword_classification_witness:
  "(\<exists>toks. lex (\<lambda>n. False) [''k.c'' \<mapsto> ''int''] (\<lambda>i. NUL) ''k.c'' = Inr (Some toks)
      \<and> token_seq toks = [\<lparr>ttype = INT_KEYWORD, tvalue = ''int''\<rparr>])
   \<and> (\<exists>toks. lex (\<lambda>n. False) [''k.c'' \<mapsto> ''return''] (\<lambda>i. NUL) ''k.c'' = Inr (Some toks)
      \<and> token_seq toks = [\<lparr>ttype = RETURN_KEYWORD, tvalue = ''return''\<rparr>])
   \<and> (\<exists>toks. lex (\<lambda>n. False) [''k.c'' \<mapsto> ''int2''] (\<lambda>i. NUL) ''k.c'' = Inr (Some toks)
      \<and> token_seq toks = [\<lparr>ttype = IDENTIFIER, tvalue = ''int2''\<rparr>])
   \<and> (\<exists>toks. lex (\<lambda>n. False) [''k.c'' \<mapsto> ''Int''] (\<lambda>i. NUL) ''k.c'' = Inr (Some toks)
      \<and> token_seq toks = [\<lparr>ttype = IDENTIFIER, tvalue = ''Int''\<rparr>])
   \<and> (\<exists>toks. lex (\<lambda>n. False) [''k.c'' \<mapsto> ''integer''] (\<lambda>i. NUL) ''k.c'' = Inr (Some toks)
      \<and> token_seq toks = [\<lparr>ttype = IDENTIFIER, tvalue = ''integer''\<rparr>])"
  using
    keyword_classification [where c = "CHR ''i''" and r = "''nt''" and rest = "[]"
      and fs = "[''k.c'' \<mapsto> ''int'']" and filename = "''k.c''"
      and realloc_ok = "\<lambda>n. False" and garbage = "\<lambda>i. NUL"]
    keyword_classification [where c = "CHR ''r''" and r = "''eturn''" and rest = "[]"
      and fs = "[''k.c'' \<mapsto> ''return'']" and filename = "''k.c''"
      and realloc_ok = "\<lambda>n. False" and garbage = "\<lambda>i. NUL"]
    keyword_classification [where c = "CHR ''i''" and r = "''nt2''" and rest = "[]"
      and fs = "[''k.c'' \<mapsto> ''int2'']" and filename = "''k.c''"
      and realloc_ok = "\<lambda>n. False" and garbage = "\<lambda>i. NUL"]
    keyword_classification [where c = "CHR ''I''" and r = "''nt''" and rest = "[]"
      and fs = "[''k.c'' \<mapsto> ''Int'']" and filename = "''k.c''"
      and realloc_ok = "\<lambda>n. False" and garbage = "\<lambda>i. NUL"]
    keyword_classification [where c = "CHR ''i''" and r = "''nteger''" and rest = "[]"
      and fs = "[''k.c'' \<mapsto> ''integer'']" and filename = "''k.c''"
      and realloc_ok = "\<lambda>n. False" and garbage = "\<lambda>i. NUL"]
  by (simp add: isalpha_def isalnum_def isdigit_def char_to_int_def)

text \<open>
  C6 (amended). As stated, a token list for every file that opens, the claim fails:
  with eleven tokens and a \<^verbatim>\<open>realloc\<close> that returns \<^verbatim>\<open>NULL\<close>, \<open>add_token\<close> ends the
  process with \<^verbatim>\<open>exit(EXIT_FAILURE)\<close>; a run of 256 letters overruns the scratch
  buffer; and when the \<^verbatim>\<open>malloc\<close> for the list returns \<^verbatim>\<open>NULL\<close>, the store
  \<^verbatim>\<open>list->size = 0\<close> of \<open>create_token_list\<close> goes through \<^verbatim>\<open>NULL\<close>.
\<close>

theorem lex_result_counterexample:
  "lex_log (\<lambda>bytes. True) (\<lambda>n. False) [''p.c'' \<mapsto> ''((((((((((('']  (\<lambda>i. NUL) ''p.c'' =
     (Inl Exit_Failure,
      [Malloc 24, Malloc 160, Strdup ''('', Strdup ''('', Strdup ''('', Strdup ''('',
       Strdup ''('', Strdup ''('', Strdup ''('', Strdup ''('', Strdup ''('', Strdup ''('',
       Realloc 320])
   \<and> lex (\<lambda>n. False) [''p.c'' \<mapsto> ''((((((((((('']  (\<lambda>i. NUL) ''p.c'' = Inl Exit_Failure
   \<and> lex (\<lambda>n. True) [''long.c'' \<mapsto> replicate 256 (CHR ''a'')] (\<lambda>i. NUL) ''long.c'' =
       Inl Scratch_Overflow
   \<and> lex_log (\<lambda>bytes. False) (\<lambda>n. True) [''p.c'' \<mapsto> ''((((((((((('']  (\<lambda>i. NUL) ''p.c'' =
       (Inl Null_Dereference, [Malloc 24])"
proof -
  have "lex_log (\<lambda>bytes. True) (\<lambda>n. False) [''p.c'' \<mapsto> ''((((((((((('']  (\<lambda>i. NUL) ''p.c'' =
     (Inl Exit_Failure,
      [Malloc 24, Malloc 160, Strdup ''('', Strdup ''('', Strdup ''('', Strdup ''('',
       Strdup ''('', Strdup ''('', Strdup ''('', Strdup ''('', Strdup ''('', Strdup ''('',
       Realloc 320])"
    by (simp add: lex_log_def create_token_list_log_10 lex_loop_log_punct add_token_log_of_room
        add_token_log_of_full_NULL lex_loop_log_Nil with_log_def sizeof_TokenList_def
        sizeof_Token_def)
  moreover have "lex (\<lambda>n. False) [''p.c'' \<mapsto> ''((((((((((('']  (\<lambda>i. NUL) ''p.c'' = Inl Exit_Failure
     \<and> lex (\<lambda>n. True) [''long.c'' \<mapsto> replicate 256 (CHR ''a'')] (\<lambda>i. NUL) ''long.c'' =
       Inl Scratch_Overflow"
    by (simp add: lex_def create_token_list_10 lex_steps add_token_of_full lex_loop_256_alpha
        isalpha_def char_to_int_def)
  moreover have "lex_log (\<lambda>bytes. False) (\<lambda>n. True) [''p.c'' \<mapsto> ''((((((((((('']  (\<lambda>i. NUL)
      ''p.c'' = (Inl Null_Dereference, [Malloc 24])"
    by (simp add: lex_log_def create_token_list_log_def sizeof_TokenList_def)
  ultimately show ?thesis
    by (simp only: simp_thms)
qed

text \<open>
  C6, the amended claim, on \<open>lex_log\<close>, which returns the result of \<open>lex\<close> and the calls
  made to the allocator. For a file that cannot be opened the result is \<^verbatim>\<open>NULL\<close> and no
  call was made: no token list was allocated. For a file that opens, the result is never
  \<^verbatim>\<open>NULL\<close> and the first call is the \<^verbatim>\<open>malloc\<close> for the list. When the two \<^verbatim>\<open>malloc\<close>
  of \<open>create_token_list(10)\<close> return a block, the result is the one of \<open>lex\<close>; when
  moreover every \<^verbatim>\<open>realloc\<close> returns a block, no alphabetic run or digit run of the file
  is longer than 255 characters and the file has at most \<open>2 ^ 59\<close> bytes (no size then
  wraps), the result is a token list, allocated by these two \<^verbatim>\<open>malloc\<close>.
\<close>

theorem lex_open_result:
  "(fs filename = None \<longrightarrow> lex_log malloc_ok realloc_ok fs garbage filename = (Inr None, []))
   \<and> (\<forall>s. fs filename = Some s \<longrightarrow>
         fst (lex_log malloc_ok realloc_ok fs garbage filename) \<noteq> Inr None
       \<and> (\<exists>rest. snd (lex_log malloc_ok realloc_ok fs garbage filename) =
                   Malloc sizeof_TokenList # rest))
   \<and> (malloc_ok sizeof_TokenList \<and> malloc_ok (sizeof_Token * 10) \<longrightarrow>
         fst (lex_log malloc_ok realloc_ok fs garbage filename) = lex realloc_ok fs garbage filename)
   \<and> (\<forall>s. fs filename = Some s \<and> malloc_ok sizeof_TokenList \<and> malloc_ok (sizeof_Token * 10)
          \<and> (\<forall>n. realloc_ok n) \<and> longest_run s \<le> 255 \<and> length s \<le> 2 ^ 59 \<longrightarrow>
         (\<exists>toks rest. lex_log malloc_ok realloc_ok fs garbage filename =
            (Inr (Some toks), Malloc sizeof_TokenList # Malloc (sizeof_Token * 10) # rest)))"
proof (intro conjI impI allI)
  assume "fs filename = None"
  then show "lex_log malloc_ok realloc_ok fs garbage filename = (Inr None, [])"
    by (simp add: lex_log_def)
next
  fix s assume "fs filename = Some s"
  then show "fst (lex_log malloc_ok realloc_ok fs garbage filename) \<noteq> Inr None"
    by (rule lex_log_not_NULL)
next
  fix s assume "fs filename = Some s"
  then show "\<exists>rest. snd (lex_log malloc_ok realloc_ok fs garbage filename) =
                   Malloc sizeof_TokenList # rest"
    by (rule lex_log_head)
next
  assume "malloc_ok sizeof_TokenList \<and> malloc_ok (sizeof_Token * 10)"
  then show "fst (lex_log malloc_ok realloc_ok fs garbage filename) = lex realloc_ok fs garbage filename"
    by (intro fst_lex_log) simp_all
next
  fix s
  assume a: "fs filename = Some s \<and> malloc_ok sizeof_TokenList \<and> malloc_ok (sizeof_Token * 10)
          \<and> (\<forall>n. realloc_ok n) \<and> longest_run s \<le> 255 \<and> length s \<le> 2 ^ 59"
  show "\<exists>toks rest. lex_log malloc_ok realloc_ok fs garbage filename =
            (Inr (Some toks), Malloc sizeof_TokenList # Malloc (sizeof_Token * 10) # rest)"
    by (rule lex_log_total [of fs filename s]) (simp_all only: a simp_thms)
qed

theorem lex_open_result_witness:
  "lex_log (\<lambda>bytes. True) (\<lambda>n. True) [''id.c'' \<mapsto> ''abc12 de''] (\<lambda>i. NUL) ''missing.c'' =
     (Inr None, [])
   \<and> fst (lex_log (\<lambda>bytes. True) (\<lambda>n. True) [''id.c'' \<mapsto> ''abc12 de''] (\<lambda>i. NUL) ''id.c'') \<noteq>
       Inr None
   \<and> (\<exists>toks rest. lex_log (\<lambda>bytes. True) (\<lambda>n. True) [''id.c'' \<mapsto> ''abc12 de''] (\<lambda>i. NUL) ''id.c'' =
        (Inr (Some toks), Malloc 24 # Malloc 160 # rest))
   \<and> lex_log (\<lambda>bytes. True) (\<lambda>n. True) [''p.c'' \<mapsto> ''()''] (\<lambda>i. NUL) ''p.c'' =
       (Inr (Some (token_list_of
          [\<lparr>ttype = L_PARAN, tvalue = ''(''\<rparr>, \<lparr>ttype = R_PARAN, tvalue = '')''\<rparr>] 10)),
        [Malloc 24, Malloc 160, Strdup ''('', Strdup '')''])"
proof -
  have run: "longest_run ''abc12 de'' \<le> 255"
    by (simp add: longest_run.simps run_at_def char_class_defs)
  have parens: "lex_log (\<lambda>bytes. True) (\<lambda>n. True) [''p.c'' \<mapsto> ''()''] (\<lambda>i. NUL) ''p.c'' =
       (Inr (Some (token_list_of
          [\<lparr>ttype = L_PARAN, tvalue = ''(''\<rparr>, \<lparr>ttype = R_PARAN, tvalue = '')''\<rparr>] 10)),
        [Malloc 24, Malloc 160, Strdup ''('', Strdup '')''])"
    by (simp add: lex_log_def create_token_list_log_10 lex_loop_log_punct add_token_log_of_room
        lex_loop_log_Nil with_log_def sizeof_TokenList_def sizeof_Token_def)
  from run
    lex_open_result [of "[''id.c'' \<mapsto> ''abc12 de'']" "''missing.c''" "\<lambda>bytes. True" "\<lambda>n. True"
      "\<lambda>i. NUL"]
    lex_open_result [of "[''id.c'' \<mapsto> ''abc12 de'']" "''id.c''" "\<lambda>bytes. True" "\<lambda>n. True"
      "\<lambda>i. NUL"]
  have "lex_log (\<lambda>bytes. True) (\<lambda>n. True) [''id.c'' \<mapsto> ''abc12 de''] (\<lambda>i. NUL) ''missing.c'' =
     (Inr None, [])
   \<and> fst (lex_log (\<lambda>bytes. True) (\<lambda>n. True) [''id.c'' \<mapsto> ''abc12 de''] (\<lambda>i. NUL) ''id.c'') \<noteq>
       Inr None
   \<and> (\<exists>toks rest. lex_log (\<lambda>bytes. True) (\<lambda>n. True) [''id.c'' \<mapsto> ''abc12 de''] (\<lambda>i. NUL) ''id.c'' =
        (Inr (Some toks), Malloc 24 # Malloc 160 # rest))"
    by (auto simp: sizeof_TokenList_def sizeof_Token_def)
  with parens show ?thesis
    by (simp only: simp_thms)
qed






text \<open>
  C9. The stores into \<^verbatim>\<open>buffer[256]\<close> are not guarded. When every alphabetic run and
  every digit run of the file has at most 255 characters, no store of the scan falls
  outside the buffer; when the file starts with an alphabetic run or a digit run of 256
  characters or more, a store falls outside it.
\<close>

theorem scratch_buffer_bound:
  assumes "fs filename = Some s"
  shows "(longest_run s \<le> 255 \<longrightarrow> lex realloc_ok fs garbage filename \<noteq> Inl Scratch_Overflow)
       \<and> (\<forall>c r rest. s = c # r @ rest \<and> isalpha (char_to_int c)
              \<and> (\<forall>x\<in>set r. isalnum (char_to_int x)) \<and> 255 \<le> length r
            \<longrightarrow> lex realloc_ok fs garbage filename = Inl Scratch_Overflow)
       \<and> (\<forall>d ds rest. s = d # ds @ rest \<and> isdigit (char_to_int d)
              \<and> (\<forall>x\<in>set ds. isdigit (char_to_int x)) \<and> 255 \<le> length ds
            \<longrightarrow> lex realloc_ok fs garbage filename = Inl Scratch_Overflow)"
proof (intro conjI impI allI)
  assume "longest_run s \<le> 255"
  from lex_loop_no_scratch_overflow [OF this, of realloc_ok "token_list_of [] 10" garbage]
  show "lex realloc_ok fs garbage filename \<noteq> Inl Scratch_Overflow"
    using assms by (auto simp: lex_def create_token_list_10 split: sum.splits)
next
  fix c r rest
  assume "s = c # r @ rest \<and> isalpha (char_to_int c)
              \<and> (\<forall>x\<in>set r. isalnum (char_to_int x)) \<and> 255 \<le> length r"
  then show "lex realloc_ok fs garbage filename = Inl Scratch_Overflow"
    using assms by (simp add: lex_def create_token_list_10 lex_loop_long_alpha_run alnum_char_def)
next
  fix d ds rest
  assume "s = d # ds @ rest \<and> isdigit (char_to_int d)
              \<and> (\<forall>x\<in>set ds. isdigit (char_to_int x)) \<and> 255 \<le> length ds"
  then show "lex realloc_ok fs garbage filename = Inl Scratch_Overflow"
    using assms by (simp add: lex_def create_token_list_10 lex_loop_long_digit_run digit_char_def)
qed

theorem scratch_buffer_bound_witness:
  "lex (\<lambda>n. True) [''id.c'' \<mapsto> ''abc12 de''] (\<lambda>i. NUL) ''id.c'' \<noteq> Inl Scratch_Overflow
   \<and> lex (\<lambda>n. True) [''long.c'' \<mapsto> replicate 256 (CHR ''a'')] (\<lambda>i. NUL) ''long.c'' =
       Inl Scratch_Overflow
   \<and> lex (\<lambda>n. True) [''num.c'' \<mapsto> replicate 256 (CHR ''7'')] (\<lambda>i. NUL) ''num.c'' =
       Inl Scratch_Overflow"
proof (intro conjI)
  have "longest_run ''abc12 de'' \<le> 255"
    by (simp add: longest_run.simps run_at_def char_class_defs)
  with scratch_buffer_bound [of "[''id.c'' \<mapsto> ''abc12 de'']" "''id.c''" "''abc12 de''"
      "\<lambda>n. True" "\<lambda>i. NUL"]
  show "lex (\<lambda>n. True) [''id.c'' \<mapsto> ''abc12 de''] (\<lambda>i. NUL) ''id.c'' \<noteq> Inl Scratch_Overflow"
    by simp
next
  have f: "[''long.c'' \<mapsto> replicate 256 (CHR ''a'')] ''long.c'' = Some (replicate 256 (CHR ''a''))"
    by (simp only: fun_upd_same)
  have "replicate 256 (CHR ''a'') = CHR ''a'' # replicate 255 (CHR ''a'') @ []
      \<and> isalpha (char_to_int (CHR ''a''))
      \<and> (\<forall>x\<in>set (replicate 255 (CHR ''a'')). isalnum (char_to_int x))
      \<and> 255 \<le> length (replicate 255 (CHR ''a''))"
    by (simp add: replicate_256 char_class_defs)
  then show "lex (\<lambda>n. True) [''long.c'' \<mapsto> replicate 256 (CHR ''a'')] (\<lambda>i. NUL) ''long.c'' =
       Inl Scratch_Overflow"
    by (rule scratch_buffer_bound [of "[''long.c'' \<mapsto> replicate 256 (CHR ''a'')]" "''long.c''"
          "replicate 256 (CHR ''a'')" "\<lambda>n. True" "\<lambda>i. NUL",
          OF f, THEN conjunct2, THEN conjunct1, rule_format])
next
  have f: "[''num.c'' \<mapsto> replicate 256 (CHR ''7'')] ''num.c'' = Some (replicate 256 (CHR ''7''))"
    by (simp only: fun_upd_same)
  have "replicate 256 (CHR ''7'') = CHR ''7'' # replicate 255 (CHR ''7'') @ []
      \<and> isdigit (char_to_int (CHR ''7''))
      \<and> (\<forall>x\<in>set (replicate 255 (CHR ''7'')). isdigit (char_to_int x))
      \<and> 255 \<le> length (replicate 255 (CHR ''7''))"
    by (simp add: replicate_256 char_class_defs)
  then show "lex (\<lambda>n. True) [''num.c'' \<mapsto> replicate 256 (CHR ''7'')] (\<lambda>i. NUL) ''num.c'' =
       Inl Scratch_Overflow"
    by (rule scratch_buffer_bound [of "[''num.c'' \<mapsto> replicate 256 (CHR ''7'')]" "''num.c''"
          "replicate 256 (CHR ''7'')" "\<lambda>n. True" "\<lambda>i. NUL",
          OF f, THEN conjunct2, THEN conjunct2, rule_format])
qed

text \<open>
  C10 (amended). As stated, every insertion writes outside the zero-sized block, the claim
  fails: \<open>add_token\<close> tests what \<^verbatim>\<open>realloc\<close> returned before it stores. With a
  \<^verbatim>\<open>realloc\<close> that returns \<^verbatim>\<open>NULL\<close> for a request of 0 bytes and a block otherwise (as
  that of glibc, which frees the block) the growing step, and with it the first append,
  ends the process with \<^verbatim>\<open>exit(EXIT_FAILURE)\<close>, and nothing is written.
\<close>

theorem zero_capacity_counterexample:
  "\<exists>l0. create_token_list (\<lambda>bytes. True) 0 = Inr l0
      \<and> capacity l0 = 0 \<and> tokens l0 = []
      \<and> grow (\<lambda>bytes. 0 < bytes) l0 = Inl Exit_Failure
      \<and> add_token (\<lambda>bytes. 0 < bytes) l0 SEMICOLON '';'' = Inl Exit_Failure
      \<and> add_token (\<lambda>bytes. 0 < bytes) l0 SEMICOLON '';'' \<noteq> Inl Token_Overflow"
  by (simp add: create_token_list_def add_token_def grow_def)

text \<open>
  C10, the amended claim. \<open>create_token_list(0)\<close> returns, when \<^verbatim>\<open>malloc\<close> returns the
  block for the list, a list of capacity 0 with no cell: nothing checks the capacity. On
  every list of capacity 0 with no cell the growing step of \<open>add_token\<close> asks for
  \<open>0 * 2 = 0\<close> cells; when \<^verbatim>\<open>realloc\<close> returns a block the capacity stays 0, the storage
  stays without a cell and the store that follows falls outside it; when \<^verbatim>\<open>realloc\<close>
  returns \<^verbatim>\<open>NULL\<close> the process exits before any store. So no append to the created list
  succeeds, and a run of appends ends at its first with that fault. The capacity is what
  is missing: with \<open>1 \<le> c < 2 ^ 60\<close> and the block for \<open>c\<close> cells the first append
  succeeds.
\<close>

theorem zero_capacity_append:
  assumes "malloc_ok sizeof_TokenList"
  shows "\<exists>l0. create_token_list malloc_ok 0 = Inr l0
      \<and> capacity l0 = 0 \<and> tokens l0 = [] \<and> tsize l0 = 0
      \<and> add_token realloc_ok l0 ty v = Inl (if realloc_ok 0 then Token_Overflow else Exit_Failure)
      \<and> (xs \<noteq> [] \<longrightarrow>
           add_tokens realloc_ok l0 xs = Inl (if realloc_ok 0 then Token_Overflow else Exit_Failure))
      \<and> (\<forall>l. capacity l = 0 \<and> tokens l = [] \<longrightarrow>
           grow realloc_ok l =
             (if realloc_ok 0 then Inr (l\<lparr>capacity := 0, tokens := []\<rparr>) else Inl Exit_Failure)
         \<and> store_token (l\<lparr>capacity := 0, tokens := []\<rparr>) ty v = Inl Token_Overflow
         \<and> add_token realloc_ok l ty v =
             Inl (if realloc_ok 0 then Token_Overflow else Exit_Failure))
      \<and> (\<forall>c. 1 \<le> c \<and> c < 2 ^ 60 \<and> malloc_ok (sizeof_Token * c) \<longrightarrow>
           (\<exists>l1 l. create_token_list malloc_ok c = Inr l1
                 \<and> add_token realloc_ok l1 ty v = Inr l
                 \<and> capacity l = c \<and> token_seq l = [\<lparr>ttype = ty, tvalue = v\<rparr>]))"
proof -
  let ?l0 = "\<lparr>tokens = [], tsize = 0, capacity = 0\<rparr>"
  let ?e = "Inl (if realloc_ok 0 then Token_Overflow else Exit_Failure) :: fault + TokenList"
  have create: "create_token_list malloc_ok 0 = Inr ?l0"
    using assms by (simp add: create_token_list_def)
  have add: "add_token realloc_ok l ty' v' = Inl (if realloc_ok 0 then Token_Overflow else Exit_Failure)"
    if "capacity l = 0 \<and> tokens l = []" for l ty' v'
    using that by (simp add: add_token_def grow_def realloc_def store_token_def)
  have adds: "xs \<noteq> [] \<longrightarrow> add_tokens realloc_ok ?l0 xs = ?e"
  proof
    assume "xs \<noteq> []"
    then obtain ty' v' rest where "xs = (ty', v') # rest"
      by (cases xs) auto
    then show "add_tokens realloc_ok ?l0 xs = ?e"
      by (simp add: add [of ?l0])
  qed
  have gen: "\<forall>l. capacity l = 0 \<and> tokens l = [] \<longrightarrow>
           grow realloc_ok l =
             (if realloc_ok 0 then Inr (l\<lparr>capacity := 0, tokens := []\<rparr>) else Inl Exit_Failure)
         \<and> store_token (l\<lparr>capacity := 0, tokens := []\<rparr>) ty v = Inl Token_Overflow
         \<and> add_token realloc_ok l ty v =
             Inl (if realloc_ok 0 then Token_Overflow else Exit_Failure)"
    by (simp add: add) (simp add: grow_def realloc_def store_token_def)
  have pos: "\<forall>c. 1 \<le> c \<and> c < 2 ^ 60 \<and> malloc_ok (sizeof_Token * c) \<longrightarrow>
           (\<exists>l1 l. create_token_list malloc_ok c = Inr l1
                 \<and> add_token realloc_ok l1 ty v = Inr l
                 \<and> capacity l = c \<and> token_seq l = [\<lparr>ttype = ty, tvalue = v\<rparr>])"
  proof (intro allI impI)
    fix c :: nat
    assume c: "1 \<le> c \<and> c < 2 ^ 60 \<and> malloc_ok (sizeof_Token * c)"
    then have 1: "create_token_list malloc_ok c = Inr (token_list_of [] c)"
      using assms by (intro create_token_list_of) simp_all
    have 2: "add_token realloc_ok (token_list_of [] c) ty v =
        Inr (token_list_of ([] @ [\<lparr>ttype = ty, tvalue = v\<rparr>]) c)"
      using c by (intro add_token_of_room) simp_all
    show "\<exists>l1 l. create_token_list malloc_ok c = Inr l1
                 \<and> add_token realloc_ok l1 ty v = Inr l
                 \<and> capacity l = c \<and> token_seq l = [\<lparr>ttype = ty, tvalue = v\<rparr>]"
      unfolding 1 using 2 by (simp add: token_seq_of) (simp add: token_list_of_def)
  qed
  have zero: "capacity ?l0 = 0" "tokens ?l0 = []" "tsize ?l0 = 0"
    by simp_all
  have add0: "add_token realloc_ok ?l0 ty v = ?e"
    by (rule add) simp
  show ?thesis
    unfolding create
    apply (rule exI [of _ ?l0])
    apply (rule conjI [OF refl conjI [OF zero(1) conjI [OF zero(2) conjI [OF zero(3)
      conjI [OF add0 conjI [OF adds conjI [OF gen pos]]]]]]])
    done
qed

theorem zero_capacity_append_witness:
  "(\<exists>l0. create_token_list (\<lambda>bytes. True) 0 = Inr l0 \<and> capacity l0 = 0 \<and> tokens l0 = []
      \<and> grow (\<lambda>n. True) l0 = Inr l0
      \<and> add_token (\<lambda>n. True) l0 SEMICOLON '';'' = Inl Token_Overflow
      \<and> add_tokens (\<lambda>n. True) l0 [(L_PARAN, ''(''), (R_PARAN, '')'')] = Inl Token_Overflow)
   \<and> (\<exists>l1 l. create_token_list (\<lambda>bytes. True) 1 = Inr l1
      \<and> add_token (\<lambda>n. True) l1 SEMICOLON '';'' = Inr l
      \<and> capacity l = 1 \<and> token_seq l = [\<lparr>ttype = SEMICOLON, tvalue = '';''\<rparr>])"
proof -
  from zero_capacity_append [of "\<lambda>bytes. True" "\<lambda>n. True" SEMICOLON "'';''"
      "[(L_PARAN, ''(''), (R_PARAN, '')'')]"]
  obtain l0 where l0: "create_token_list (\<lambda>bytes. True) 0 = Inr l0"
      "capacity l0 = 0" "tokens l0 = []"
      "add_token (\<lambda>n. True) l0 SEMICOLON '';'' = Inl Token_Overflow"
      "add_tokens (\<lambda>n. True) l0 [(L_PARAN, ''(''), (R_PARAN, '')'')] = Inl Token_Overflow"
      "\<forall>l. capacity l = 0 \<and> tokens l = [] \<longrightarrow>
         grow (\<lambda>n. True) l = Inr (l\<lparr>capacity := 0, tokens := []\<rparr>)"
      "\<forall>c. 1 \<le> c \<and> c < 2 ^ 60 \<longrightarrow>
         (\<exists>l1 l. create_token_list (\<lambda>bytes. True) c = Inr l1
               \<and> add_token (\<lambda>n. True) l1 SEMICOLON '';'' = Inr l
               \<and> capacity l = c \<and> token_seq l = [\<lparr>ttype = SEMICOLON, tvalue = '';''\<rparr>])"
    by (simp del: add_tokens.simps add: sizeof_TokenList_def) blast
  from l0(6) l0(2,3) have "grow (\<lambda>n. True) l0 = Inr l0"
    by simp
  moreover from l0(7) have "\<exists>l1 l. create_token_list (\<lambda>bytes. True) 1 = Inr l1
      \<and> add_token (\<lambda>n. True) l1 SEMICOLON '';'' = Inr l
      \<and> capacity l = 1 \<and> token_seq l = [\<lparr>ttype = SEMICOLON, tvalue = '';''\<rparr>]"
    by simp
  ultimately show ?thesis
    using l0(1-5) by blast
qed

end
